theory Spec2Isabelle
  imports Complex_Main "HOL-Library.Word" "HOL-Library.Multiset"
begin

unbundle bit_operations_syntax

section \<open>JavaScript values used by the jetton code\<close>

text \<open>
  A JavaScript string is a sequence of UTF-16 code units; each unit is a natural number
  below 65536. Property names and metadata values are such strings.
\<close>

type_synonym jsstring = "nat list"

definition str :: "string \<Rightarrow> jsstring" where
  "str s = map of_char s"

text \<open>
  The errors of the code. The source throws plain \<open>Error\<close> objects that differ in their
  message; the specification names them: \<open>Unsupported onchain key: k\<close> is the
  unsupported-key error, \<open>Expected onchain content marker\<close> and
  \<open>Only snake format is supported\<close> are the two malformed-content errors. Whatever the
  cell library or the buffer library throws on its own (a cell that overflows, a read past
  the end, an entry stored twice) is \<open>LibraryError\<close>. Nothing in the source raises the
  invalid-address or the transport error.
\<close>

datatype error =
    UnsupportedKeyError jsstring
  | MalformedContentError string
  | InvalidAddressError
  | TransportError
  | LibraryError

definition bindE :: "'e + 'a \<Rightarrow> ('a \<Rightarrow> 'e + 'b) \<Rightarrow> 'e + 'b" where
  "bindE m f = (case m of Inl e \<Rightarrow> Inl e | Inr x \<Rightarrow> f x)"

text \<open>\<open>xs.forEach(f)\<close> with a callback that may throw: the first throw ends the loop.\<close>

fun forEach :: "('a \<Rightarrow> 's \<Rightarrow> 'e + 's) \<Rightarrow> 'a list \<Rightarrow> 's \<Rightarrow> 'e + 's" where
  "forEach f [] s = Inr s"
| "forEach f (x # xs) s = bindE (f x s) (forEach f xs)"

section \<open>The buffer library: text encodings\<close>

text \<open>
  \<open>Buffer.from(v, encoding)\<close> and \<open>buf.toString(encoding)\<close> of the \<open>buffer\<close> package
  that \<open>index.tsx\<close> installs as the global \<open>Buffer\<close>. A buffer is a list of bytes.
  The \<open>ascii\<close> encoder keeps the low byte of each code unit, the \<open>ascii\<close> decoder clears
  the top bit of each byte. The \<open>utf8\<close> encoder joins surrogate pairs and replaces a lone
  surrogate by the bytes of U+FFFD; the decoder replaces each malformed sequence by U+FFFD.
\<close>

datatype encoding = Utf8 | Ascii

definition asciiToBytes :: "jsstring \<Rightarrow> nat list" where
  "asciiToBytes s = map (\<lambda>c. c AND 0xFF) s"

definition asciiSlice :: "nat list \<Rightarrow> jsstring" where
  "asciiSlice buf = map (\<lambda>b. b AND 0x7F) buf"

definition encodeCodePoint :: "nat \<Rightarrow> nat list" where
  "encodeCodePoint c =
     (if c < 0x80 then [c]
      else if c < 0x800 then [drop_bit 6 c OR 0xC0, (c AND 0x3F) OR 0x80]
      else if c < 0x10000 then
        [drop_bit 12 c OR 0xE0, (drop_bit 6 c AND 0x3F) OR 0x80, (c AND 0x3F) OR 0x80]
      else if c < 0x110000 then
        [drop_bit 18 c OR 0xF0, (drop_bit 12 c AND 0x3F) OR 0x80,
         (drop_bit 6 c AND 0x3F) OR 0x80, (c AND 0x3F) OR 0x80]
      else [])"

definition replacement :: "nat list" where
  "replacement = [0xEF, 0xBF, 0xBD]"

fun utf8ToBytes :: "nat option \<Rightarrow> jsstring \<Rightarrow> nat list" where
  "utf8ToBytes leadSurrogate [] = []"
| "utf8ToBytes leadSurrogate (c # cs) =
     (if 0xD7FF < c \<and> c < 0xE000 then
        (case leadSurrogate of
           None \<Rightarrow>
             if 0xDBFF < c then replacement @ utf8ToBytes None cs
             else if cs = [] then replacement @ utf8ToBytes None cs
             else utf8ToBytes (Some c) cs
         | Some l \<Rightarrow>
             if c < 0xDC00 then replacement @ utf8ToBytes (Some c) cs
             else encodeCodePoint ((push_bit 10 (l - 0xD800) OR (c - 0xDC00)) + 0x10000)
                  @ utf8ToBytes None cs)
      else (case leadSurrogate of None \<Rightarrow> [] | Some l \<Rightarrow> replacement)
           @ encodeCodePoint c @ utf8ToBytes None cs)"

definition isContinuation :: "nat \<Rightarrow> bool" where
  "isContinuation b = (b AND 0xC0 = 0x80)"

definition decodeSequence :: "nat \<Rightarrow> nat \<Rightarrow> nat list \<Rightarrow> nat option" where
  "decodeSequence bytesPerSequence firstByte rest =
     (if bytesPerSequence = 1 then
        (if firstByte < 0x80 then Some firstByte else None)
      else if bytesPerSequence = 2 then
        (let secondByte = rest ! 0;
             t = push_bit 6 (firstByte AND 0x1F) OR (secondByte AND 0x3F)
         in if isContinuation secondByte \<and> 0x7F < t then Some t else None)
      else if bytesPerSequence = 3 then
        (let secondByte = rest ! 0; thirdByte = rest ! 1;
             t = push_bit 12 (firstByte AND 0xF) OR push_bit 6 (secondByte AND 0x3F)
                 OR (thirdByte AND 0x3F)
         in if isContinuation secondByte \<and> isContinuation thirdByte
               \<and> 0x7FF < t \<and> (t < 0xD800 \<or> 0xDFFF < t)
            then Some t else None)
      else
        (let secondByte = rest ! 0; thirdByte = rest ! 1; fourthByte = rest ! 2;
             t = push_bit 18 (firstByte AND 0xF) OR push_bit 12 (secondByte AND 0x3F)
                 OR push_bit 6 (thirdByte AND 0x3F) OR (fourthByte AND 0x3F)
         in if isContinuation secondByte \<and> isContinuation thirdByte
               \<and> isContinuation fourthByte \<and> 0xFFFF < t \<and> t < 0x110000
            then Some t else None))"

definition bytesPerSequence :: "nat \<Rightarrow> nat" where
  "bytesPerSequence firstByte =
     (if 0xEF < firstByte then 4 else if 0xDF < firstByte then 3
      else if 0xBF < firstByte then 2 else 1)"

fun utf8Slice :: "nat list \<Rightarrow> jsstring" where
  "utf8Slice [] = []"
| "utf8Slice (firstByte # rest) =
     (case (if bytesPerSequence firstByte \<le> Suc (length rest)
            then decodeSequence (bytesPerSequence firstByte) firstByte rest else None) of
        None \<Rightarrow> 0xFFFD # utf8Slice rest
      | Some codePoint \<Rightarrow>
          (if 0xFFFF < codePoint
           then [(drop_bit 10 (codePoint - 0x10000) AND 0x3FF) OR 0xD800,
                 0xDC00 OR ((codePoint - 0x10000) AND 0x3FF)]
           else [codePoint])
          @ utf8Slice (drop (bytesPerSequence firstByte - 1) rest))"

definition Buffer_toString :: "encoding \<Rightarrow> nat list \<Rightarrow> jsstring" where
  "Buffer_toString enc buf = (case enc of Utf8 \<Rightarrow> utf8Slice buf | Ascii \<Rightarrow> asciiSlice buf)"

section \<open>The cell library\<close>

text \<open>
  A cell of the \<open>ton\<close> package holds bits and references to other cells. A builder
  is allocated for 1023 bits, which reserves 128 bytes, and the range check of a write
  lets the index 1023 pass: a builder takes 1024 bits and throws at the next one.
  The library is an external package. As the design notes of the specification ask, the
  dictionary root that \<open>endDict\<close> serialises is kept as the sorted-by-digest association
  list of its entries (\<open>DictCell\<close>), not as the bits of the library's prefix tree.
\<close>

datatype cell =
    Cell "bool list" "cell list"
  | DictCell "(nat \<times> cell) list"

type_synonym builder = "bool list \<times> cell list"
type_synonym slice = "bool list \<times> cell list"

definition CELL_BITS :: nat where
  "CELL_BITS = 1023"

definition beginCell :: "error + builder" where
  "beginCell = Inr ([], [])"

definition chain :: "'a \<Rightarrow> ('a \<Rightarrow> 'a) list \<Rightarrow> 'a" where
  "chain b ops = foldl (\<lambda>b f. f b) b ops"

definition writeBits :: "bool list \<Rightarrow> error + builder \<Rightarrow> error + builder" where
  "writeBits new b =
     bindE b (\<lambda>(bits, refs).
       if CELL_BITS + 1 < length bits + length new then Inl LibraryError
       else Inr (bits @ new, refs))"

text \<open>The \<open>n\<close> low bits of \<open>v\<close>, most significant first.\<close>

fun uint_bits :: "nat \<Rightarrow> nat \<Rightarrow> bool list" where
  "uint_bits 0 v = []"
| "uint_bits (Suc n) v = uint_bits n (v div 2) @ [odd v]"

definition storeUint :: "nat \<Rightarrow> nat \<Rightarrow> error + builder \<Rightarrow> error + builder" where
  "storeUint v bitLength b =
     (if bitLength = 0 \<or> 2 ^ bitLength \<le> v
      then (if v = 0 then b else bindE b (\<lambda>_. Inl LibraryError))
      else writeBits (uint_bits bitLength v) b)"

definition storeUint8 :: "nat \<Rightarrow> error + builder \<Rightarrow> error + builder" where
  "storeUint8 v b = storeUint v 8 b"

definition storeBit :: "bool \<Rightarrow> error + builder \<Rightarrow> error + builder" where
  "storeBit v b = writeBits [v] b"

text \<open>
  \<open>storeInt\<close> writes a negative number as the bit 1 followed by \<open>2 ^ (bitLength - 1) + v\<close>
  as an unsigned number. There is no test that \<open>v\<close> is not below the range: the sum is
  then negative, its binary digits are printed after a minus sign, the width test counts
  the sign, and the loop over the first \<open>bitLength - 1\<close> characters writes a 0 for the
  sign and then all the digits but the last.
\<close>

fun binaryLength :: "nat \<Rightarrow> nat" where
  "binaryLength n = (if n = 0 then 0 else Suc (binaryLength (n div 2)))"

declare binaryLength.simps [simp del]

definition storeInt :: "int \<Rightarrow> nat \<Rightarrow> error + builder \<Rightarrow> error + builder" where
  "storeInt v bitLength b =
     (if bitLength = 1 then
        (if v = - 1 then storeBit True b
         else if v = 0 then storeBit False b
         else bindE b (\<lambda>_. Inl LibraryError))
      else if v < 0 then
        (if v < - (2 ^ (bitLength - 1)) then
           (if bitLength - 1 < Suc (binaryLength (nat (- (2 ^ (bitLength - 1) + v))))
            then bindE (storeBit True b) (\<lambda>_. Inl LibraryError)
            else writeBits (uint_bits (bitLength - 1) (nat (- (2 ^ (bitLength - 1) + v)) div 2))
                   (storeBit True b))
         else storeUint (nat (2 ^ (bitLength - 1) + v)) (bitLength - 1) (storeBit True b))
      else storeUint (nat v) (bitLength - 1) (storeBit False b))"

definition storeBuffer :: "nat list \<Rightarrow> error + builder \<Rightarrow> error + builder" where
  "storeBuffer buf b = foldl (\<lambda>b byte. storeUint8 byte b) b buf"

text \<open>The number of bytes of a positive amount: half the number of its hex digits, rounded up.\<close>

fun byteLength :: "nat \<Rightarrow> nat" where
  "byteLength v = (if v = 0 then 0 else Suc (byteLength (v div 256)))"

declare byteLength.simps [simp del]

definition storeCoins :: "nat \<Rightarrow> error + builder \<Rightarrow> error + builder" where
  "storeCoins amount b =
     (if amount = 0 then storeUint 0 4 b
      else storeUint amount (byteLength amount * 8) (storeUint (byteLength amount) 4 b))"

record address =
  workChain :: int
  hash :: "nat list"

definition storeAddress :: "address option \<Rightarrow> error + builder \<Rightarrow> error + builder" where
  "storeAddress a b =
     (case a of
        None \<Rightarrow> storeUint 0 2 b
      | Some addr \<Rightarrow>
          chain b [storeUint 2 2, storeUint 0 1, storeInt (workChain addr) 8,
                   storeBuffer (hash addr)])"

text \<open>
  The argument of \<open>storeRef\<close> is evaluated after the stores before it have run, so an
  earlier failure wins over a failure of the argument.
\<close>

definition storeRef :: "error + cell \<Rightarrow> error + builder \<Rightarrow> error + builder" where
  "storeRef c b = bindE b (\<lambda>(bits, refs). bindE c (\<lambda>r. Inr (bits, refs @ [r])))"

definition storeDict :: "error + cell option \<Rightarrow> error + builder \<Rightarrow> error + builder" where
  "storeDict d b =
     bindE b (\<lambda>b'. bindE d (\<lambda>src.
       case src of
         None \<Rightarrow> storeBit False (Inr b')
       | Some r \<Rightarrow> bindE (storeBit True (Inr b')) (\<lambda>(bits, refs). Inr (bits, refs @ [r]))))"

definition endCell :: "error + builder \<Rightarrow> error + cell" where
  "endCell b = bindE b (\<lambda>(bits, refs). Inr (Cell bits refs))"

subsection \<open>Dictionary builder\<close>

text \<open>
  \<open>beginDict(KEYLEN)\<close> collects entries in a map from the key (the digest, read as a
  number) to the value cell; storing a key twice throws. \<open>endDict\<close> returns \<open>null\<close> for
  an empty dictionary and the serialised root otherwise. The serialiser writes each value
  into a leaf of the prefix tree, after what is left of the key, and throws when a leaf
  overflows. Which dictionaries it accepts is a parameter of the model: \<open>serializes\<close>, a
  predicate on the entries in key order.
\<close>

type_synonym dictBuilder = "(nat \<times> cell) list"

definition beginDict :: "nat \<Rightarrow> dictBuilder" where
  "beginDict keySize = []"

definition dict_storeCell :: "nat \<Rightarrow> cell \<Rightarrow> dictBuilder \<Rightarrow> error + dictBuilder" where
  "dict_storeCell key v items =
     (if key \<in> fst ` set items then Inl LibraryError else Inr (items @ [(key, v)]))"

definition endDict :: "((nat \<times> cell) list \<Rightarrow> bool) \<Rightarrow> dictBuilder \<Rightarrow> error + cell option" where
  "endDict serializes items =
     (if items = [] then Inr None
      else if serializes (sort_key fst items) then Inr (Some (DictCell (sort_key fst items)))
      else Inl LibraryError)"

subsection \<open>Reading a cell\<close>

definition beginParse :: "cell \<Rightarrow> error + slice" where
  "beginParse c = (case c of Cell bits refs \<Rightarrow> Inr (bits, refs) | DictCell _ \<Rightarrow> Inl LibraryError)"

definition nat_of_bits :: "bool list \<Rightarrow> nat" where
  "nat_of_bits bits = foldl (\<lambda>acc b. 2 * acc + of_bool b) 0 bits"

definition readUint :: "nat \<Rightarrow> slice \<Rightarrow> error + (nat \<times> slice)" where
  "readUint n s =
     (case s of (bits, refs) \<Rightarrow>
        if length bits < n then Inl LibraryError
        else Inr (nat_of_bits (take n bits), (drop n bits, refs)))"

fun bytes_of_bits :: "bool list \<Rightarrow> nat list" where
  "bytes_of_bits (b7 # b6 # b5 # b4 # b3 # b2 # b1 # b0 # rest) =
     nat_of_bits [b7, b6, b5, b4, b3, b2, b1, b0] # bytes_of_bits rest"
| "bytes_of_bits _ = []"

definition readRemainingBytes :: "slice \<Rightarrow> error + nat list" where
  "readRemainingBytes s =
     (case s of (bits, refs) \<Rightarrow>
        if length bits mod 8 \<noteq> 0 then Inl LibraryError else Inr (bytes_of_bits bits))"

text \<open>
  \<open>readDict(KEYLEN, extractor)\<close> reads no bit: it takes the next reference as the root
  of the dictionary and throws when there is none. The extractor runs on every entry, in
  key order, and the first throw ends the read. A reference that is an ordinary cell is
  not the root of a serialised dictionary.
\<close>

fun extractAll :: "(cell \<Rightarrow> error + 'v) \<Rightarrow> (nat \<times> cell) list \<Rightarrow> error + (nat \<times> 'v) list" where
  "extractAll extractor [] = Inr []"
| "extractAll extractor ((key, c) # rest) =
     bindE (extractor c) (\<lambda>v. bindE (extractAll extractor rest) (\<lambda>vs. Inr ((key, v) # vs)))"

definition readDict :: "nat \<Rightarrow> (cell \<Rightarrow> error + 'v) \<Rightarrow> slice \<Rightarrow> error + (nat \<times> 'v) list" where
  "readDict keySize extractor s =
     (case s of
        (bits, []) \<Rightarrow> Inl LibraryError
      | (bits, Cell _ _ # refs) \<Rightarrow> Inl LibraryError
      | (bits, DictCell entries # refs) \<Rightarrow> extractAll extractor entries)"

section \<open>The jetton minter: constants\<close>

definition ONCHAIN_CONTENT_PREFIX :: nat where
  "ONCHAIN_CONTENT_PREFIX = 0x00"

definition SNAKE_PREFIX :: nat where
  "SNAKE_PREFIX = 0x00"

datatype OPS = Mint | InternalTransfer | Transfer

fun op_code :: "OPS \<Rightarrow> nat" where
  "op_code Mint = 21"
| "op_code InternalTransfer = 0x178d4519"
| "op_code Transfer = 0xf8a7ea5"

text \<open>
  \<open>jettonOnChainMetadataSpec\<close> is an object literal with four own properties. Reading
  \<open>jettonOnChainMetadataSpec[k]\<close> also finds what every object inherits from
  \<open>Object.prototype\<close>; an inherited member is a function or an object, so it is truthy
  and it is not a string.
\<close>

definition jettonOnChainMetadataSpec :: "(jsstring \<times> encoding) list" where
  "jettonOnChainMetadataSpec =
     [(str ''name'', Utf8), (str ''description'', Utf8),
      (str ''image'', Ascii), (str ''symbol'', Utf8)]"

definition Object_prototype_keys :: "jsstring list" where
  "Object_prototype_keys =
     [str ''constructor'', str ''hasOwnProperty'', str ''isPrototypeOf'',
      str ''propertyIsEnumerable'', str ''toLocaleString'', str ''toString'',
      str ''valueOf'', str ''__proto__'', str ''__defineGetter__'',
      str ''__defineSetter__'', str ''__lookupGetter__'', str ''__lookupSetter__'']"

datatype spec_value = OwnEncoding encoding | InheritedMember | Undefined

definition spec_get :: "jsstring \<Rightarrow> spec_value" where
  "spec_get k =
     (case map_of jettonOnChainMetadataSpec k of
        Some enc \<Rightarrow> OwnEncoding enc
      | None \<Rightarrow> if k \<in> set Object_prototype_keys then InheritedMember else Undefined)"

definition truthy :: "spec_value \<Rightarrow> bool" where
  "truthy v = (v \<noteq> Undefined)"

text \<open>
  \<open>Buffer.from(v, encoding)\<close>: an encoding that is not a string counts as \<open>utf8\<close>.
\<close>

definition Buffer_from :: "jsstring \<Rightarrow> spec_value \<Rightarrow> nat list" where
  "Buffer_from v enc =
     (case enc of OwnEncoding Ascii \<Rightarrow> asciiToBytes v | _ \<Rightarrow> utf8ToBytes None v)"

section \<open>buildOnChainData and parseOnChainData\<close>

text \<open>
  The digest \<open>sha256\<close> comes from an external package; the functions take it as their
  first argument, a map from the key name to the 256-bit digest read as a number.
  \<open>buildOnChainData\<close> also takes \<open>serializes\<close>, what the dictionary serialiser of
  the cell library accepts. \<open>data\<close> is the list \<open>Object.entries(data)\<close>: the own
  properties in enumeration order, a value \<open>undefined\<close> being \<open>None\<close>.
\<close>

type_synonym metadata = "(jsstring \<times> jsstring option) list"

definition storeEntry ::
  "(jsstring \<Rightarrow> nat) \<Rightarrow> jsstring \<times> jsstring option \<Rightarrow> dictBuilder \<Rightarrow> error + dictBuilder" where
  "storeEntry sha256 kv dict =
     (case kv of (k, v) \<Rightarrow>
        if \<not> truthy (spec_get k) then Inl (UnsupportedKeyError k)
        else (case v of
                None \<Rightarrow> Inr dict
              | Some s \<Rightarrow>
                  bindE (endCell (chain beginCell
                           [storeUint8 SNAKE_PREFIX,
                            storeBuffer (Buffer_from s (spec_get k))]))
                    (\<lambda>c. dict_storeCell (sha256 k) c dict)))"

definition buildOnChainData ::
  "(jsstring \<Rightarrow> nat) \<Rightarrow> ((nat \<times> cell) list \<Rightarrow> bool) \<Rightarrow> metadata \<Rightarrow> error + cell" where
  "buildOnChainData sha256 serializes data =
     (let KEYLEN = 256 in
      bindE (forEach (storeEntry sha256) data (beginDict KEYLEN))
        (\<lambda>dict. endCell (chain beginCell
           [storeInt (int ONCHAIN_CONTENT_PREFIX) 8, storeDict (endDict serializes dict)])))"

definition extractValue :: "cell \<Rightarrow> error + nat list" where
  "extractValue s =
     bindE (beginParse s) (\<lambda>valSlice.
       bindE (readUint 8 valSlice) (\<lambda>(tag, valSlice').
         if tag \<noteq> SNAKE_PREFIX then Inl (MalformedContentError ''Only snake format is supported'')
         else readRemainingBytes valSlice'))"

text \<open>
  The loop over \<open>Object.keys(jettonOnChainMetadataSpec)\<close>: a key is assigned when its
  entry exists and decodes to a truthy string, that is, a non-empty one.
\<close>

definition collectKey ::
  "(jsstring \<Rightarrow> nat) \<Rightarrow> (nat \<times> nat list) list \<Rightarrow> jsstring \<times> encoding
     \<Rightarrow> (jsstring \<times> jsstring) list \<Rightarrow> (jsstring \<times> jsstring) list" where
  "collectKey sha256 dict ke res =
     (case ke of (k, enc) \<Rightarrow>
        (case map_option (Buffer_toString enc) (map_of dict (sha256 k)) of
           None \<Rightarrow> res
         | Some val \<Rightarrow> if val \<noteq> [] then res @ [(k, val)] else res))"

definition parseOnChainData ::
  "(jsstring \<Rightarrow> nat) \<Rightarrow> cell \<Rightarrow> error + (jsstring \<times> jsstring) list" where
  "parseOnChainData sha256 contentCell =
     (let KEYLEN = 256 in
      bindE (beginParse contentCell) (\<lambda>contentSlice.
        bindE (readUint 8 contentSlice) (\<lambda>(tag, contentSlice').
          if tag \<noteq> ONCHAIN_CONTENT_PREFIX
          then Inl (MalformedContentError ''Expected onchain content marker'')
          else bindE (readDict KEYLEN extractValue contentSlice') (\<lambda>dict.
            Inr (foldl (\<lambda>res ke. collectKey sha256 dict ke res) []
                   jettonOnChainMetadataSpec)))))"

section \<open>initData and mintBody\<close>

text \<open>
  \<open>JETTON_WALLET_CODE\<close> is a cell read from a build artefact that is not among the
  sources; \<open>initData\<close> takes it as an argument. \<open>toNano(0.2)\<close> is 0.2 of the coin in its
  smallest unit, a billionth.
\<close>

definition toNano :: "rat \<Rightarrow> nat" where
  "toNano src = nat \<lfloor>src * 1000000000\<rfloor>"

definition initData ::
  "(jsstring \<Rightarrow> nat) \<Rightarrow> ((nat \<times> cell) list \<Rightarrow> bool) \<Rightarrow> cell \<Rightarrow> address \<Rightarrow> metadata
     \<Rightarrow> error + cell" where
  "initData sha256 serializes JETTON_WALLET_CODE owner data =
     endCell (chain beginCell
       [storeCoins 0,
        storeAddress (Some owner),
        storeRef (buildOnChainData sha256 serializes data),
        storeRef (Inr JETTON_WALLET_CODE)])"

definition mintBody :: "address \<Rightarrow> nat \<Rightarrow> error + cell" where
  "mintBody owner jettonValue =
     endCell (chain beginCell
       [storeUint (op_code Mint) 32,
        storeUint 0 64,
        storeAddress (Some owner),
        storeCoins (toNano (2 / 10)),
        storeRef (endCell (chain beginCell
          [storeUint (op_code InternalTransfer) 32,
           storeUint 0 64,
           storeCoins jettonValue,
           storeAddress None,
           storeAddress None,
           storeCoins 0,
           storeBit False]))])"

section \<open>The connection store\<close>

record ('w, 'a) ConnectionStateAtom =
  address :: "jsstring option"
  wallet :: "'w option"
  adapterId :: 'a
  isConnecting :: bool
  isRestoring :: bool

record 'w newValue =
  new_address :: "jsstring option"
  new_wallet :: "'w option"

definition connectionStateAtom_default :: "('w, 'a option) ConnectionStateAtom" where
  "connectionStateAtom_default =
     \<lparr>address = None, wallet = None, adapterId = None,
      isConnecting = True, isRestoring = True\<rparr>"

definition connectWalletSelector_get ::
  "('w, 'a) ConnectionStateAtom \<Rightarrow> ('w, 'a) ConnectionStateAtom" where
  "connectWalletSelector_get state = state"

definition connectWalletSelector_set ::
  "('w, 'a) ConnectionStateAtom \<Rightarrow> 'w newValue \<Rightarrow> ('w, 'a) ConnectionStateAtom" where
  "connectWalletSelector_set state nv =
     state\<lparr>address := new_address nv, wallet := new_wallet nv\<rparr>"

section \<open>Notions used to state the properties\<close>

subsection \<open>Layouts\<close>

text \<open>The bits a store appends, field by field.\<close>

definition buffer_bits :: "nat list \<Rightarrow> bool list" where
  "buffer_bits buf = concat (map (uint_bits 8) buf)"

definition coins_bits :: "nat \<Rightarrow> bool list" where
  "coins_bits amount =
     uint_bits 4 (byteLength amount) @ uint_bits (byteLength amount * 8) amount"

text \<open>
  An address in a cell: the tag \<open>10\<close>, no anycast, the workchain as an 8-bit two's
  complement number, the 256-bit hash. The absent address is the tag \<open>00\<close>.
\<close>

definition address_bits :: "address option \<Rightarrow> bool list" where
  "address_bits a =
     (case a of
        None \<Rightarrow> [False, False]
      | Some addr \<Rightarrow>
          [True, False] @ [False] @ uint_bits 8 (nat (workChain addr mod 256))
          @ buffer_bits (hash addr))"

text \<open>
  A well-formed address has a workchain that fits 8 bits and a hash of 32 bytes. A coin
  field holds the amounts below \<open>2 ^ 120\<close>: the byte length of the amount is written in
  4 bits.
\<close>

definition wellFormedAddress :: "address \<Rightarrow> bool" where
  "wellFormedAddress a =
     (- 128 \<le> workChain a \<and> workChain a < 128 \<and> length (hash a) = 32
      \<and> list_all (\<lambda>b. b < 256) (hash a))"

definition MAX_COINS :: nat where
  "MAX_COINS = 2 ^ 120"

text \<open>
  What \<open>initData\<close> can store as the owner: a workchain that fits 8 bits and a hash that
  the cell has room for after the zero coin amount and the 11 bits before the hash, which
  is a hash of at most 126 bytes.
\<close>

definition storableOwner :: "address \<Rightarrow> bool" where
  "storableOwner a =
     (- 128 \<le> workChain a \<and> workChain a < 128 \<and> length (hash a) \<le> 126
      \<and> list_all (\<lambda>b. b < 256) (hash a))"

text \<open>
  The value cell of an entry, and the longest value that fits it: the tag takes 8 of the
  1024 bits that a builder takes, which leaves room for 127 bytes.
\<close>

definition valueCell :: "nat list \<Rightarrow> cell" where
  "valueCell buf = Cell (uint_bits 8 SNAKE_PREFIX @ buffer_bits buf) []"

definition MAX_VALUE_BYTES :: nat where
  "MAX_VALUE_BYTES = 127"

text \<open>The entries that \<open>buildOnChainData\<close> stores, in the order of the loop.\<close>

definition entryCells :: "(jsstring \<Rightarrow> nat) \<Rightarrow> metadata \<Rightarrow> (nat \<times> cell) list" where
  "entryCells sha256 data =
     List.map_filter
       (\<lambda>(k, v). map_option (\<lambda>s. (sha256 k, valueCell (Buffer_from s (spec_get k)))) v) data"

text \<open>
  The content cell of a dictionary: the marker, the presence bit and, for a non-empty
  dictionary, the reference to its root.
\<close>

definition contentCell :: "(nat \<times> cell) list \<Rightarrow> cell" where
  "contentCell items =
     (if items = [] then Cell (uint_bits 8 ONCHAIN_CONTENT_PREFIX @ [False]) []
      else Cell (uint_bits 8 ONCHAIN_CONTENT_PREFIX @ [True]) [DictCell (sort_key fst items)])"

subsection \<open>Metadata mappings\<close>

definition recognizedKeys :: "jsstring list" where
  "recognizedKeys = map fst jettonOnChainMetadataSpec"

definition withinBound :: "jsstring \<Rightarrow> jsstring \<Rightarrow> bool" where
  "withinBound k s = (length (Buffer_from s (spec_get k)) \<le> MAX_VALUE_BYTES)"

text \<open>
  A valid metadata mapping: the keys are distinct property names among the recognized
  ones, and each value that is present fits its value cell.
\<close>

definition validMetadata :: "metadata \<Rightarrow> bool" where
  "validMetadata m =
     (distinct (map fst m) \<and>
      list_all (\<lambda>(k, v). k \<in> set recognizedKeys \<and>
                  (case v of None \<Rightarrow> True | Some s \<Rightarrow> withinBound k s)) m)"

text \<open>
  The library's serialiser accepts the dictionary of a metadata mapping. With the
  capacity of the value cell (\<open>withinBound\<close>) this is the per-entry length bound.
\<close>

definition serializable ::
  "(jsstring \<Rightarrow> nat) \<Rightarrow> ((nat \<times> cell) list \<Rightarrow> bool) \<Rightarrow> metadata \<Rightarrow> bool" where
  "serializable sha256 serializes m =
     (entryCells sha256 m = [] \<or> serializes (sort_key fst (entryCells sha256 m)))"

text \<open>
  What the loop of \<open>buildOnChainData\<close> accepts: every key passes the truthiness test
  and every defined value fits its cell.
\<close>

definition encodable :: "metadata \<Rightarrow> bool" where
  "encodable m =
     list_all (\<lambda>(k, v). truthy (spec_get k) \<and>
                 (case v of None \<Rightarrow> True | Some s \<Rightarrow> withinBound k s)) m"

text \<open>
  A string of UTF-16 code units is well formed when every surrogate stands in a pair, a
  lead surrogate followed by a trail surrogate. A JavaScript string may hold any code
  units; the \<open>utf8\<close> encoder writes U+FFFD for a surrogate that stands alone.
\<close>

definition isScalarUnit :: "nat \<Rightarrow> bool" where
  "isScalarUnit c = (c < 0xD800 \<or> (0xDFFF < c \<and> c < 0x10000))"

definition isLeadSurrogate :: "nat \<Rightarrow> bool" where
  "isLeadSurrogate c = (0xD7FF < c \<and> c < 0xDC00)"

definition isTrailSurrogate :: "nat \<Rightarrow> bool" where
  "isTrailSurrogate c = (0xDBFF < c \<and> c < 0xE000)"

fun wellFormedUtf16 :: "jsstring \<Rightarrow> bool" where
  "wellFormedUtf16 [] = True"
| "wellFormedUtf16 [c] = isScalarUnit c"
| "wellFormedUtf16 (c # d # ds) =
     (if isLeadSurrogate c then isTrailSurrogate d \<and> wellFormedUtf16 ds
      else isScalarUnit c \<and> wellFormedUtf16 (d # ds))"

text \<open>
  The values that an encoding keeps: not empty, and under \<open>utf8\<close> well-formed UTF-16,
  under \<open>ascii\<close> made of code units below 128. These are exactly the non-empty values
  that decoding their own bytes gives back (\<open>representable_iff\<close> below).
\<close>

definition preserved :: "encoding \<Rightarrow> jsstring \<Rightarrow> bool" where
  "preserved enc s =
     (s \<noteq> [] \<and>
      (case enc of Utf8 \<Rightarrow> wellFormedUtf16 s | Ascii \<Rightarrow> list_all (\<lambda>c. c < 128) s))"

definition representable :: "jsstring \<Rightarrow> jsstring \<Rightarrow> bool" where
  "representable k s =
     (case spec_get k of OwnEncoding enc \<Rightarrow> preserved enc s | _ \<Rightarrow> False)"

definition allRepresentable :: "metadata \<Rightarrow> bool" where
  "allRepresentable m =
     list_all (\<lambda>(k, v). case v of None \<Rightarrow> True | Some s \<Rightarrow> representable k s) m"

text \<open>
  The mapping that a metadata object denotes: a key with its defined value. Two objects
  are equal as mappings, whatever the order of their keys, when these functions are equal.
\<close>

definition asMapping :: "metadata \<Rightarrow> jsstring \<Rightarrow> jsstring option" where
  "asMapping m k = (case map_of m k of Some (Some s) \<Rightarrow> Some s | _ \<Rightarrow> None)"

definition removeKey :: "jsstring \<Rightarrow> metadata \<Rightarrow> metadata" where
  "removeKey k m = filter (\<lambda>kv. fst kv \<noteq> k) m"

text \<open>A mapping defines a value when some key of it has a value that is not undefined.\<close>

definition definesValue :: "metadata \<Rightarrow> bool" where
  "definesValue m = list_ex (\<lambda>kv. snd kv \<noteq> None) m"

subsection \<open>What the parser reads\<close>

text \<open>The bytes that the extractor of \<open>parseOnChainData\<close> reads from a value cell.\<close>

definition payload :: "cell \<Rightarrow> nat list" where
  "payload c = (case extractValue c of Inr buf \<Rightarrow> buf | Inl e \<Rightarrow> [])"

text \<open>
  What the loop of \<open>parseOnChainData\<close> assigns to a key, given the bytes found for it:
  the decoded string when it is truthy.
\<close>

definition decodedValue :: "encoding \<Rightarrow> nat list option \<Rightarrow> jsstring option" where
  "decodedValue enc found =
     (case map_option (Buffer_toString enc) found of
        None \<Rightarrow> None
      | Some val \<Rightarrow> if val \<noteq> [] then Some val else None)"

text \<open>
  The mapping that decoding the encoding of \<open>m\<close> gives: each recognized key with the
  decoding of its encoded value, when that is not empty.
\<close>

definition decodedMapping :: "metadata \<Rightarrow> jsstring \<Rightarrow> jsstring option" where
  "decodedMapping m k =
     (case map_of jettonOnChainMetadataSpec k of
        None \<Rightarrow> None
      | Some enc \<Rightarrow>
          decodedValue enc (map_option (\<lambda>s. Buffer_from s (OwnEncoding enc)) (asMapping m k)))"

text \<open>
  The leading 8-bit tag of a cell, when the cell has that many bits; the entries of the
  dictionary whose root is the first reference of a content cell; whether a value cell
  consists of whole bytes, at least one; and whether the first byte of an entry is not
  the snake tag.
\<close>

definition leadingTag :: "cell \<Rightarrow> nat option" where
  "leadingTag c =
     (case c of
        Cell bits refs \<Rightarrow> if length bits < 8 then None else Some (nat_of_bits (take 8 bits))
      | DictCell entries \<Rightarrow> None)"

definition dictEntries :: "cell \<Rightarrow> (nat \<times> cell) list" where
  "dictEntries c =
     (case c of
        Cell bits (DictCell entries # refs) \<Rightarrow> entries
      | _ \<Rightarrow> [])"

definition wholeBytes :: "cell \<Rightarrow> bool" where
  "wholeBytes c =
     (case c of
        Cell bits refs \<Rightarrow> 8 \<le> length bits \<and> length bits mod 8 = 0
      | DictCell entries \<Rightarrow> False)"

definition mismatchedEntry :: "nat \<times> cell \<Rightarrow> bool" where
  "mismatchedEntry entry =
     (case leadingTag (snd entry) of None \<Rightarrow> False | Some t \<Rightarrow> t \<noteq> SNAKE_PREFIX)"

text \<open>
  An entry can be read when it consists of whole bytes, at least one, and the first byte
  is the snake tag. The entries are read in key order, and the first one that cannot be
  read ends the parse.
\<close>

definition readableEntry :: "nat \<times> cell \<Rightarrow> bool" where
  "readableEntry entry = (wholeBytes (snd entry) \<and> \<not> mismatchedEntry entry)"

definition firstUnreadable :: "(nat \<times> cell) list \<Rightarrow> (nat \<times> cell) option" where
  "firstUnreadable entries = find (\<lambda>entry. \<not> readableEntry entry) entries"

text \<open>
  The cells that the parser is stated for: an ordinary cell whose first reference, when
  it has one, is the root of a dictionary with ordinary cells as values. The bits of a
  dictionary root are not part of this model, so nothing is stated about a root that is
  read as a content cell or as a value.
\<close>

definition plainCell :: "cell \<Rightarrow> bool" where
  "plainCell c = (case c of Cell bits refs \<Rightarrow> True | DictCell entries \<Rightarrow> False)"

definition contentShaped :: "cell \<Rightarrow> bool" where
  "contentShaped c =
     (case c of
        Cell bits [] \<Rightarrow> True
      | Cell bits (DictCell entries # refs) \<Rightarrow> list_all (\<lambda>entry. plainCell (snd entry)) entries
      | _ \<Rightarrow> False)"

subsection \<open>Concrete inputs\<close>

text \<open>
  A stand-in digest for running the functions on concrete inputs: the length of the key
  name, which tells the four recognized names apart.
\<close>

definition lengthDigest :: "jsstring \<Rightarrow> nat" where
  "lengthDigest k = length k"

text \<open>
  A stand-in serialiser: it accepts a dictionary when every value fits a leaf of 1023
  bits next to the label of a whole 256-bit key, which takes 267 bits.
\<close>

definition fitsLeaf :: "(nat \<times> cell) list \<Rightarrow> bool" where
  "fitsLeaf entries =
     list_all (\<lambda>entry. case snd entry of
                 Cell bits refs \<Rightarrow> length bits + 267 \<le> CELL_BITS
               | DictCell nested \<Rightarrow> False) entries"

text \<open>
  An owner address; an address object whose hash has 31 bytes; and one whose workchain
  is 128.
\<close>

definition exampleOwner :: address where
  "exampleOwner = \<lparr>workChain = 0, hash = replicate 32 0xAB\<rparr>"

definition shortHashOwner :: address where
  "shortHashOwner = \<lparr>workChain = 0, hash = replicate 31 0xAB\<rparr>"

definition wideWorkchainOwner :: address where
  "wideWorkchainOwner = \<lparr>workChain = 128, hash = replicate 32 0xAB\<rparr>"

text \<open>
  The metadata of the specification's scenario; the same with a description that is
  present and undefined; a description that is undefined and nothing else; an empty name;
  an image that holds U+00E9; and a name that holds a lone surrogate.
\<close>

definition exampleMetadata :: metadata where
  "exampleMetadata = [(str ''name'', Some (str ''Test'')), (str ''symbol'', Some (str ''TST''))]"

definition undefinedDescriptionMetadata :: metadata where
  "undefinedDescriptionMetadata =
     [(str ''name'', Some (str ''Test'')), (str ''description'', None),
      (str ''symbol'', Some (str ''TST''))]"

definition undefinedOnlyMetadata :: metadata where
  "undefinedOnlyMetadata = [(str ''description'', None)]"

definition emptyNameMetadata :: metadata where
  "emptyNameMetadata = [(str ''name'', Some [])]"

definition accentedImageMetadata :: metadata where
  "accentedImageMetadata = [(str ''image'', Some [0xE9])]"

definition loneSurrogateMetadata :: metadata where
  "loneSurrogateMetadata = [(str ''name'', Some [0xD800])]"

text \<open>
  Three content cells: one whose leading tag is 1; one with the right marker whose only
  dictionary entry starts with the byte 1; and one with the right marker and two entries,
  the first of 11 bits that start with the snake tag, the second starting with the byte 1.
\<close>

definition wrongMarkerCell :: cell where
  "wrongMarkerCell = Cell (uint_bits 8 1) []"

definition wrongSnakeCell :: cell where
  "wrongSnakeCell =
     Cell (uint_bits 8 ONCHAIN_CONTENT_PREFIX @ [True]) [DictCell [(4, Cell (uint_bits 8 1) [])]]"

definition brokenEntryCell :: cell where
  "brokenEntryCell =
     Cell (uint_bits 8 ONCHAIN_CONTENT_PREFIX @ [True])
       [DictCell [(4, Cell (uint_bits 8 SNAKE_PREFIX @ [True, False, True]) []),
                  (6, Cell (uint_bits 8 1) [])]]"

section \<open>The builder: what each store appends\<close>

lemma bindE_simps [simp]:
  "bindE (Inl e) f = Inl e" "bindE (Inr x) f = f x"
  by (simp_all add: bindE_def)

lemma length_uint_bits [simp]: "length (uint_bits n v) = n"
  by (induction n arbitrary: v) simp_all

lemma writeBits_Inr:
  "writeBits new (Inr (bits, refs)) =
     (if length bits + length new \<le> 1024 then Inr (bits @ new, refs) else Inl LibraryError)"
  by (simp add: writeBits_def CELL_BITS_def)

lemma storeUint_Inr:
  "0 < n \<Longrightarrow> v < 2 ^ n \<Longrightarrow> length bits + n \<le> 1024 \<Longrightarrow>
   storeUint v n (Inr (bits, refs)) = Inr (bits @ uint_bits n v, refs)"
  by (simp add: storeUint_def writeBits_Inr)

lemma storeUint_zero_width:
  "storeUint 0 0 (Inr (bits, refs)) = Inr (bits @ uint_bits 0 0, refs)"
  by (simp add: storeUint_def)

lemma storeUint_too_big:
  "2 ^ n \<le> v \<Longrightarrow> storeUint v n (Inr b) = Inl LibraryError"
proof -
  assume "2 ^ n \<le> v"
  moreover have "(0::nat) < 2 ^ n" by simp
  ultimately have "v \<noteq> 0" by linarith
  with \<open>2 ^ n \<le> v\<close> show ?thesis by (simp add: storeUint_def)
qed

lemma storeUint_Inl [simp]: "storeUint v n (Inl e) = Inl e"
  by (simp add: storeUint_def writeBits_def)

lemma storeBit_Inr:
  "length bits < 1024 \<Longrightarrow> storeBit v (Inr (bits, refs)) = Inr (bits @ [v], refs)"
  by (simp add: storeBit_def writeBits_Inr)

lemma storeBuffer_Inl [simp]: "storeBuffer buf (Inl e) = Inl e"
  by (induction buf) (simp_all add: storeBuffer_def storeUint8_def)

lemma storeBuffer_Cons:
  "storeBuffer (byte # buf) b = storeBuffer buf (storeUint byte 8 b)"
  by (simp add: storeBuffer_def storeUint8_def)

lemma storeBuffer_Nil [simp]: "storeBuffer [] b = b"
  by (simp add: storeBuffer_def)

lemma buffer_bits_Cons: "buffer_bits (byte # buf) = uint_bits 8 byte @ buffer_bits buf"
  by (simp add: buffer_bits_def)

lemma length_buffer_bits [simp]: "length (buffer_bits buf) = 8 * length buf"
  by (induction buf) (simp_all add: buffer_bits_def)

lemma storeBuffer_Inr:
  "length bits \<le> 1024 \<Longrightarrow> storeBuffer buf (Inr (bits, refs)) =
     (if list_all (\<lambda>b. b < 256) buf \<and> length bits + 8 * length buf \<le> 1024
      then Inr (bits @ buffer_bits buf, refs) else Inl LibraryError)"
proof (induction buf arbitrary: bits)
  case Nil
  then show ?case by (simp add: buffer_bits_def)
next
  case (Cons byte buf)
  show ?case
  proof (cases "byte < 256 \<and> length bits + 8 \<le> 1024")
    case True
    then have "storeUint byte 8 (Inr (bits, refs)) = Inr (bits @ uint_bits 8 byte, refs)"
      by (simp add: storeUint_Inr)
    then show ?thesis
      using True by (simp add: storeBuffer_Cons Cons.IH buffer_bits_Cons add.assoc)
  next
    case False
    then have "storeUint byte 8 (Inr (bits, refs)) = Inl LibraryError"
      by (auto simp add: storeUint_def writeBits_Inr)
    then show ?thesis
      using False by (auto simp add: storeBuffer_Cons)
  qed
qed

lemma byteLength_0 [simp]: "byteLength 0 = 0"
  by (simp add: byteLength.simps)

lemma byteLength_bound: "v < 256 ^ n \<Longrightarrow> byteLength v \<le> n"
proof (induction n arbitrary: v)
  case 0
  then show ?case by simp
next
  case (Suc n)
  show ?case
  proof (cases "v = 0")
    case True
    then show ?thesis by simp
  next
    case False
    from Suc.prems have "v div 256 < 256 ^ n"
      by (simp add: less_mult_imp_div_less mult.commute)
    then have "byteLength (v div 256) \<le> n" by (rule Suc.IH)
    then show ?thesis using False by (subst byteLength.simps) simp
  qed
qed

lemma byteLength_holds: "v < 256 ^ byteLength v"
proof (induction v rule: byteLength.induct)
  case (1 v)
  show ?case
  proof (cases "v = 0")
    case True
    then show ?thesis by simp
  next
    case False
    then have "v div 256 < 256 ^ byteLength (v div 256)" using 1 by simp
    then have "v < 256 * 256 ^ byteLength (v div 256)"
      by (metis div_less_iff_less_mult mult.commute zero_less_numeral)
    then show ?thesis using False by (subst byteLength.simps) simp
  qed
qed

lemma byteLength_grows: "256 ^ n \<le> v \<Longrightarrow> n < byteLength v"
proof (rule ccontr)
  assume "256 ^ n \<le> v" and "\<not> n < byteLength v"
  then have "(256::nat) ^ byteLength v \<le> 256 ^ n" by (simp add: power_increasing)
  with \<open>256 ^ n \<le> v\<close> show False using byteLength_holds [of v] by simp
qed


lemma length_coins_bits: "length (coins_bits amount) = 4 + 8 * byteLength amount"
  by (simp add: coins_bits_def)

lemma byteLength_coins: "amount < MAX_COINS \<Longrightarrow> byteLength amount \<le> 15"
  by (rule byteLength_bound) (simp add: MAX_COINS_def)

lemma storeCoins_Inr:
  assumes "amount < MAX_COINS" and "length bits + 4 + 8 * byteLength amount \<le> 1024"
  shows "storeCoins amount (Inr (bits, refs)) = Inr (bits @ coins_bits amount, refs)"
proof (cases "amount = 0")
  case True
  then show ?thesis using assms by (simp add: storeCoins_def coins_bits_def storeUint_Inr)
next
  case False
  have small: "byteLength amount < 2 ^ 4" using byteLength_coins [OF assms(1)] by simp
  have pos: "0 < byteLength amount * 8" using False by (subst byteLength.simps) simp
  have fits: "amount < 2 ^ (byteLength amount * 8)"
  proof -
    have "(2::nat) ^ (byteLength amount * 8) = (2 ^ 8) ^ byteLength amount"
      by (subst mult.commute) (rule power_mult)
    then show ?thesis using byteLength_holds [of amount] by simp
  qed
  have "storeUint (byteLength amount) 4 (Inr (bits, refs))
        = Inr (bits @ uint_bits 4 (byteLength amount), refs)"
    using small assms(2) by (simp add: storeUint_Inr)
  moreover have "storeUint amount (byteLength amount * 8)
                   (Inr (bits @ uint_bits 4 (byteLength amount), refs))
        = Inr ((bits @ uint_bits 4 (byteLength amount))
               @ uint_bits (byteLength amount * 8) amount, refs)"
    using pos fits assms(2) by (intro storeUint_Inr) simp_all
  ultimately show ?thesis using False by (simp add: storeCoins_def coins_bits_def)
qed

lemma storeCoins_too_big:
  assumes "MAX_COINS \<le> amount"
  shows "storeCoins amount (Inr b) = Inl LibraryError"
proof -
  have "256 ^ 15 \<le> amount" using assms by (simp add: MAX_COINS_def)
  then have "15 < byteLength amount" by (rule byteLength_grows)
  then have "2 ^ 4 \<le> byteLength amount" by simp
  then have "storeUint (byteLength amount) 4 (Inr b) = Inl LibraryError"
    by (rule storeUint_too_big)
  moreover have "amount \<noteq> 0" using assms by (auto simp add: MAX_COINS_def)
  ultimately show ?thesis by (simp add: storeCoins_def)
qed

lemma uint_bits_Suc_msb: "uint_bits (Suc n) v = odd (v div 2 ^ n) # uint_bits n v"
proof (induction n arbitrary: v)
  case 0
  then show ?case by simp
next
  case (Suc n)
  have "uint_bits (Suc (Suc n)) v = uint_bits (Suc n) (v div 2) @ [odd v]" by simp
  also have "\<dots> = (odd (v div 2 div 2 ^ n) # uint_bits n (v div 2)) @ [odd v]"
    by (simp only: Suc.IH)
  also have "\<dots> = odd (v div 2 ^ Suc n) # uint_bits (Suc n) v"
    by (simp add: div_mult2_eq)
  finally show ?case .
qed

lemma uint_bits_mod: "uint_bits n (v mod 2 ^ n) = uint_bits n v"
proof (induction n arbitrary: v)
  case 0
  then show ?case by simp
next
  case (Suc n)
  have "(v mod 2 ^ Suc n) div 2 = (v div 2) mod 2 ^ n"
    by (simp add: mod_mult2_eq)
  moreover have "odd (v mod 2 ^ Suc n) = odd v"
  proof -
    have "v mod 2 ^ Suc n mod 2 = v mod 2" by (rule mod_mod_cancel) simp
    then show ?thesis by (simp only: odd_iff_mod_2_eq_one)
  qed
  ultimately show ?case using Suc.IH [of "v div 2"] by simp
qed

lemma uint_bits_2_2: "uint_bits 2 2 = [True, False]"
  by (simp add: numeral_2_eq_2)

lemma uint_bits_2_0: "uint_bits 2 0 = [False, False]"
  by (simp add: numeral_2_eq_2)

lemma uint_bits_1_0: "uint_bits 1 0 = [False]"
  by simp

lemma storeInt8_Inr:
  assumes "- 128 \<le> v" and "v < 128" and "length bits + 8 \<le> 1024"
  shows "storeInt v 8 (Inr (bits, refs)) = Inr (bits @ uint_bits 8 (nat (v mod 256)), refs)"
proof -
  have split8: "uint_bits 8 w = odd (w div 128) # uint_bits 7 w" for w
    using uint_bits_Suc_msb [of 7 w] by simp
  show ?thesis
  proof (cases "v < 0")
    case True
    have "(v + 256) mod 256 = v + 256"
      using True assms(1) by (intro mod_pos_pos_trivial) simp_all
    moreover have "(v + 256) mod 256 = v mod 256" by simp
    ultimately have m: "v mod 256 = v + 256" by simp
    have w: "nat (v + 256) = nat (128 + v) + 128" using assms(1) by simp
    have "uint_bits 7 (nat (128 + v) + 128) = uint_bits 7 (nat (128 + v))"
      using uint_bits_mod [of 7 "nat (128 + v) + 128"] uint_bits_mod [of 7 "nat (128 + v)"]
      by simp
    moreover have "odd ((nat (128 + v) + 128) div 128)" using True assms(1) by simp
    ultimately have "uint_bits 8 (nat (v mod 256)) = True # uint_bits 7 (nat (128 + v))"
      by (simp add: m w split8)
    moreover have "nat (128 + v) < 2 ^ 7" using True by simp
    ultimately show ?thesis using True assms
      by (simp add: storeInt_def storeBit_Inr storeUint_Inr)
  next
    case False
    then have m: "v mod 256 = v" using assms(2) by simp
    have "nat v < 128" using assms(2) by simp
    then have "uint_bits 8 (nat v) = False # uint_bits 7 (nat v)"
      by (simp add: split8)
    moreover have "nat v < 2 ^ 7" using assms(2) by simp
    ultimately show ?thesis using False assms
      by (simp add: storeInt_def storeBit_Inr storeUint_Inr m)
  qed
qed

lemma length_address_bits:
  "length (address_bits (Some a)) = 11 + 8 * length (hash a)" "length (address_bits None) = 2"
  by (simp_all add: address_bits_def)

lemma storeAddress_None:
  "length bits + 2 \<le> 1024 \<Longrightarrow>
   storeAddress None (Inr (bits, refs)) = Inr (bits @ address_bits None, refs)"
  using uint_bits_2_0 by (simp add: storeAddress_def address_bits_def storeUint_Inr)

lemma storeAddress_stored:
  assumes wc: "- 128 \<le> workChain a" "workChain a < 128"
    and bytes: "list_all (\<lambda>b. b < 256) (hash a)"
    and room: "length bits + 11 + 8 * length (hash a) \<le> 1024"
  shows "storeAddress (Some a) (Inr (bits, refs)) = Inr (bits @ address_bits (Some a), refs)"
proof -
  have 1: "storeUint 2 2 (Inr (bits, refs)) = Inr (bits @ [True, False], refs)"
    using room uint_bits_2_2 by (simp add: storeUint_Inr)
  have 2: "storeUint 0 1 (Inr (bits @ [True, False], refs))
           = Inr (bits @ [True, False] @ [False], refs)"
    using room by (simp add: storeUint_Inr)
  have 3: "storeInt (workChain a) 8 (Inr (bits @ [True, False] @ [False], refs))
           = Inr ((bits @ [True, False] @ [False])
                  @ uint_bits 8 (nat (workChain a mod 256)), refs)"
    using wc room by (intro storeInt8_Inr) simp_all
  have 4: "storeBuffer (hash a)
             (Inr ((bits @ [True, False] @ [False])
                   @ uint_bits 8 (nat (workChain a mod 256)), refs))
           = Inr (((bits @ [True, False] @ [False])
                   @ uint_bits 8 (nat (workChain a mod 256))) @ buffer_bits (hash a), refs)"
    using bytes room by (subst storeBuffer_Inr) simp_all
  have "storeAddress (Some a) (Inr (bits, refs))
        = storeBuffer (hash a) (storeInt (workChain a) 8
            (storeUint 0 1 (storeUint 2 2 (Inr (bits, refs)))))"
    by (simp add: storeAddress_def chain_def)
  also have "\<dots> = Inr (((bits @ [True, False] @ [False])
                   @ uint_bits 8 (nat (workChain a mod 256))) @ buffer_bits (hash a), refs)"
    by (simp only: 1 2 3 4)
  finally show ?thesis by (simp add: address_bits_def)
qed

lemma storeAddress_Some:
  assumes "wellFormedAddress a" and "length bits + 267 \<le> 1024"
  shows "storeAddress (Some a) (Inr (bits, refs)) = Inr (bits @ address_bits (Some a), refs)"
  using assms by (intro storeAddress_stored) (simp_all add: wellFormedAddress_def)


lemma or_byte:
  fixes x y :: nat
  assumes "x < 256" and "y < 256"
  shows "x OR y < 256"
proof -
  have "x < 2 ^ 8" "y < 2 ^ 8" using assms by simp_all
  then have "take_bit 8 (x OR y) = x OR y"
    by (simp add: take_bit_nat_eq_self)
  moreover have "take_bit 8 (x OR y) < 2 ^ 8" by (rule take_bit_nat_less_exp)
  ultimately show ?thesis by simp
qed

lemma and_63_byte: "(x::nat) AND 0x3F < 256"
proof -
  have "(0x3F::nat) = mask 6" by (simp add: mask_eq_exp_minus_1)
  then have "x AND 0x3F = take_bit 6 x" by (simp only: take_bit_eq_mask)
  moreover have "take_bit 6 x < 2 ^ 6" by (rule take_bit_nat_less_exp)
  ultimately show ?thesis by simp
qed

lemma and_255_byte: "(x::nat) AND 0xFF < 256"
proof -
  have "(0xFF::nat) = mask 8" by (simp add: mask_eq_exp_minus_1)
  then have "x AND 0xFF = take_bit 8 x" by (simp only: take_bit_eq_mask)
  moreover have "take_bit 8 x < 2 ^ 8" by (rule take_bit_nat_less_exp)
  ultimately show ?thesis by simp
qed

lemma continuation_byte: "((x::nat) AND 0x3F) OR 0x80 < 256"
  by (rule or_byte) (simp_all add: and_63_byte)

lemma encodeCodePoint_bytes: "list_all (\<lambda>b. b < 256) (encodeCodePoint c)"
proof -
  have lead: "k < 256 \<Longrightarrow> c div 2 ^ n < 256 \<Longrightarrow> drop_bit n c OR k < 256" for n k
    by (rule or_byte) (simp_all add: drop_bit_eq_div)
  have cont: "(drop_bit n c AND 0x3F) OR 0x80 < 256" for n
    by (rule continuation_byte)
  show ?thesis
    unfolding encodeCodePoint_def
    by (auto simp add: continuation_byte cont intro!: lead)
qed

lemma replacement_bytes: "list_all (\<lambda>b. b < 256) replacement"
  by (simp add: replacement_def)

lemma utf8ToBytes_bytes: "list_all (\<lambda>b. b < 256) (utf8ToBytes lead s)"
proof (induction lead s rule: utf8ToBytes.induct)
  case (1 leadSurrogate)
  then show ?case by simp
next
  case (2 leadSurrogate c cs)
  then show ?case
    by (simp add: encodeCodePoint_bytes replacement_bytes split: option.split)
qed

lemma asciiToBytes_bytes: "list_all (\<lambda>b. b < 256) (asciiToBytes s)"
  by (simp add: asciiToBytes_def list_all_iff and_255_byte)

lemma Buffer_from_bytes: "list_all (\<lambda>b. b < 256) (Buffer_from s enc)"
  by (simp add: Buffer_from_def utf8ToBytes_bytes asciiToBytes_bytes
           split: spec_value.split encoding.split)

lemma toNano_gas: "toNano (2 / 10) = 200000000"
  by (simp add: toNano_def)

lemma storeRef_Inr: "storeRef (Inr c) (Inr (bits, refs)) = Inr (bits, refs @ [c])"
  by (simp add: storeRef_def)

lemma storeRef_Inl_arg: "storeRef (Inl e) (Inr b) = Inl e"
  by (simp add: storeRef_def split: prod.split)

lemma endCell_Inr: "endCell (Inr (bits, refs)) = Inr (Cell bits refs)"
  by (simp add: endCell_def)

lemma endCell_Inl [simp]: "endCell (Inl e) = Inl e"
  by (simp add: endCell_def)

lemma storeCoins_Inl [simp]: "storeCoins amount (Inl e) = Inl e"
  by (simp add: storeCoins_def)

lemma storeBit_Inl [simp]: "storeBit v (Inl e) = Inl e"
  by (simp add: storeBit_def writeBits_def)

lemma writeBits_Inl [simp]: "writeBits new (Inl e) = Inl e"
  by (simp add: writeBits_def)

lemma storeInt_Inl [simp]: "storeInt v n (Inl e) = Inl e"
  by (simp add: storeInt_def)

lemma storeAddress_Inl [simp]: "storeAddress a (Inl e) = Inl e"
  by (simp add: storeAddress_def chain_def split: option.split)

lemma storeRef_Inl [simp]: "storeRef c (Inl e) = Inl e"
  by (simp add: storeRef_def)

lemma length_coins_bits_le: "amount < MAX_COINS \<Longrightarrow> length (coins_bits amount) \<le> 124"
  using byteLength_coins [of amount] by (simp add: length_coins_bits)

lemma length_address_bits_wf:
  "wellFormedAddress a \<Longrightarrow> length (address_bits (Some a)) = 267"
  by (simp add: length_address_bits wellFormedAddress_def)

lemma gas_is_coins: "(200000000::nat) < MAX_COINS"
  by (simp add: MAX_COINS_def)

lemma zero_is_coins: "(0::nat) < MAX_COINS"
  by (simp add: MAX_COINS_def)

text \<open>The first four stores of \<open>mintBody\<close>.\<close>

lemma mintBody_head:
  assumes "wellFormedAddress owner"
  shows "storeCoins (toNano (2 / 10)) (storeAddress (Some owner)
           (storeUint 0 64 (storeUint (op_code Mint) 32 beginCell)))
         = Inr (uint_bits 32 21 @ uint_bits 64 0 @ address_bits (Some owner)
                @ coins_bits 200000000, [])"
proof -
  have 1: "storeUint (op_code Mint) 32 beginCell = Inr ([] @ uint_bits 32 21, [])"
    unfolding beginCell_def op_code.simps by (rule storeUint_Inr) simp_all
  have 2: "storeUint 0 64 (Inr ([] @ uint_bits 32 21, []))
           = Inr (([] @ uint_bits 32 21) @ uint_bits 64 0, [])"
    by (rule storeUint_Inr) simp_all
  have 3: "storeAddress (Some owner) (Inr (([] @ uint_bits 32 21) @ uint_bits 64 0, []))
           = Inr ((([] @ uint_bits 32 21) @ uint_bits 64 0) @ address_bits (Some owner), [])"
    using assms by (rule storeAddress_Some) simp
  have 4: "storeCoins 200000000
             (Inr ((([] @ uint_bits 32 21) @ uint_bits 64 0) @ address_bits (Some owner), []))
           = Inr (((([] @ uint_bits 32 21) @ uint_bits 64 0) @ address_bits (Some owner))
                  @ coins_bits 200000000, [])"
    using gas_is_coins
  proof (rule storeCoins_Inr)
    show "length ((([] @ uint_bits 32 21) @ uint_bits 64 0) @ address_bits (Some owner))
          + 4 + 8 * byteLength 200000000 \<le> 1024"
      using length_coins_bits_le [OF gas_is_coins] length_address_bits_wf [OF assms]
      by (simp add: length_coins_bits)
  qed
  show ?thesis by (simp only: toNano_gas 1 2 3 4) simp
qed

text \<open>The nested internal transfer message of \<open>mintBody\<close>.\<close>

lemma internalTransfer_cell:
  assumes "jettonValue < MAX_COINS"
  shows "endCell (storeBit False (storeCoins 0 (storeAddress None (storeAddress None
           (storeCoins jettonValue (storeUint 0 64
              (storeUint (op_code InternalTransfer) 32 beginCell)))))))
         = Inr (Cell (uint_bits 32 0x178d4519 @ uint_bits 64 0 @ coins_bits jettonValue
                      @ address_bits None @ address_bits None @ coins_bits 0 @ [False]) [])"
proof -
  let ?b1 = "[] @ uint_bits 32 0x178d4519"
  let ?b2 = "?b1 @ uint_bits 64 0"
  let ?b3 = "?b2 @ coins_bits jettonValue"
  let ?b4 = "?b3 @ address_bits None"
  let ?b5 = "?b4 @ address_bits None"
  let ?b6 = "?b5 @ coins_bits 0"
  have len: "length (coins_bits jettonValue) \<le> 124"
    using assms by (rule length_coins_bits_le)
  have 1: "storeUint (op_code InternalTransfer) 32 beginCell = Inr (?b1, [])"
    unfolding beginCell_def op_code.simps by (rule storeUint_Inr) simp_all
  have 2: "storeUint 0 64 (Inr (?b1, [])) = Inr (?b2, [])"
    by (rule storeUint_Inr) simp_all
  have 3: "storeCoins jettonValue (Inr (?b2, [])) = Inr (?b3, [])"
    using assms
  proof (rule storeCoins_Inr)
    show "length ?b2 + 4 + 8 * byteLength jettonValue \<le> 1024"
      using len by (simp add: length_coins_bits)
  qed
  have 4: "storeAddress None (Inr (?b3, [])) = Inr (?b4, [])"
    by (rule storeAddress_None) (use len in simp)
  have 5: "storeAddress None (Inr (?b4, [])) = Inr (?b5, [])"
    by (rule storeAddress_None) (use len in \<open>simp add: length_address_bits\<close>)
  have 6: "storeCoins 0 (Inr (?b5, [])) = Inr (?b6, [])"
    using zero_is_coins
    by (rule storeCoins_Inr) (use len in \<open>simp add: length_address_bits\<close>)
  have 7: "storeBit False (Inr (?b6, [])) = Inr (?b6 @ [False], [])"
    by (rule storeBit_Inr)
       (use len in \<open>simp add: length_address_bits length_coins_bits\<close>)
  show ?thesis by (simp only: 1 2 3 4 5 6 7 endCell_Inr) simp
qed

lemma mintBody_unfold:
  "mintBody owner jettonValue =
     endCell (storeRef
       (endCell (storeBit False (storeCoins 0 (storeAddress None (storeAddress None
           (storeCoins jettonValue (storeUint 0 64
              (storeUint (op_code InternalTransfer) 32 beginCell))))))))
       (storeCoins (toNano (2 / 10)) (storeAddress (Some owner)
           (storeUint 0 64 (storeUint (op_code Mint) 32 beginCell)))))"
  by (simp add: mintBody_def chain_def)

lemma internalTransfer_too_big:
  assumes "MAX_COINS \<le> jettonValue"
  shows "endCell (storeBit False (storeCoins 0 (storeAddress None (storeAddress None
           (storeCoins jettonValue (storeUint 0 64
              (storeUint (op_code InternalTransfer) 32 beginCell)))))))
         = Inl LibraryError"
proof -
  have 1: "storeUint (op_code InternalTransfer) 32 beginCell
           = Inr ([] @ uint_bits 32 0x178d4519, [])"
    unfolding beginCell_def op_code.simps by (rule storeUint_Inr) simp_all
  have 2: "storeUint 0 64 (Inr ([] @ uint_bits 32 0x178d4519, []))
           = Inr (([] @ uint_bits 32 0x178d4519) @ uint_bits 64 0, [])"
    by (rule storeUint_Inr) simp_all
  show ?thesis
    by (simp only: 1 2 storeCoins_too_big [OF assms] storeAddress_Inl storeCoins_Inl
          storeBit_Inl endCell_Inl)
qed

lemma mintBody_too_big:
  assumes "wellFormedAddress owner" and "MAX_COINS \<le> jettonValue"
  shows "mintBody owner jettonValue = Inl LibraryError"
  by (simp only: mintBody_unfold mintBody_head [OF assms(1)]
        internalTransfer_too_big [OF assms(2)] storeRef_Inl_arg endCell_Inl)


lemma exampleOwner_wf: "wellFormedAddress exampleOwner"
  by (simp add: exampleOwner_def wellFormedAddress_def list_all_iff)


section \<open>mintBody\<close>

text \<open>
  C4 (as amended). For every well-formed owner address and every amount below
  \<open>2 ^ 120\<close> (the largest amount a coin field holds), \<open>mintBody\<close> returns a cell with
  the 32-bit Mint opcode 21, a 64-bit zero query id, the owner address, the coin amount
  200000000 as gas fee, and one reference: a cell with the 32-bit InternalTransfer opcode,
  a 64-bit zero query id, the amount as coins, two absent addresses, a zero coin amount
  and a single false bit.
\<close>

theorem mintBody_layout:
  assumes "wellFormedAddress owner" and "jettonValue < MAX_COINS"
  shows "mintBody owner jettonValue =
     Inr (Cell (uint_bits 32 21 @ uint_bits 64 0 @ address_bits (Some owner)
                @ coins_bits 200000000)
            [Cell (uint_bits 32 0x178d4519 @ uint_bits 64 0 @ coins_bits jettonValue
                   @ address_bits None @ address_bits None @ coins_bits 0 @ [False]) []])"
  by (simp only: mintBody_unfold mintBody_head [OF assms(1)] internalTransfer_cell [OF assms(2)]
        storeRef_Inr endCell_Inr append_Nil)

text \<open>The layout at a concrete owner and the amount 1000.\<close>

theorem mintBody_layout_witness:
  "wellFormedAddress exampleOwner \<and> (1000::nat) < MAX_COINS \<and>
   mintBody exampleOwner 1000 =
     Inr (Cell (uint_bits 32 21 @ uint_bits 64 0 @ address_bits (Some exampleOwner)
                @ coins_bits 200000000)
            [Cell (uint_bits 32 0x178d4519 @ uint_bits 64 0 @ coins_bits 1000
                   @ address_bits None @ address_bits None @ coins_bits 0 @ [False]) []])"
proof -
  have small: "(1000::nat) < MAX_COINS" by (simp add: MAX_COINS_def)
  show ?thesis
    using exampleOwner_wf small mintBody_layout [OF exampleOwner_wf small] by simp
qed

text \<open>
  C4 as stated fails: the amount \<open>2 ^ 120\<close> is not negative, and \<open>mintBody\<close> returns
  no cell for it, because the length prefix of a coin amount has four bits.
\<close>

theorem mintBody_amount_counterexample:
  "wellFormedAddress exampleOwner \<and> mintBody exampleOwner (2 ^ 120) = Inl LibraryError"
proof -
  have "MAX_COINS \<le> 2 ^ 120" by (simp add: MAX_COINS_def)
  with exampleOwner_wf show ?thesis by (simp add: mintBody_too_big)
qed

section \<open>buildOnChainData: what it accepts and what it returns\<close>

lemma valueCell_built:
  assumes "length buf \<le> MAX_VALUE_BYTES" and "list_all (\<lambda>b. b < 256) buf"
  shows "endCell (chain beginCell [storeUint8 SNAKE_PREFIX, storeBuffer buf])
         = Inr (valueCell buf)"
proof -
  have 1: "storeUint8 SNAKE_PREFIX beginCell = Inr (uint_bits 8 SNAKE_PREFIX, [])"
    by (simp add: beginCell_def storeUint8_def storeUint_Inr SNAKE_PREFIX_def)
  have 2: "storeBuffer buf (Inr (uint_bits 8 SNAKE_PREFIX, []))
           = Inr (uint_bits 8 SNAKE_PREFIX @ buffer_bits buf, [])"
    using assms by (subst storeBuffer_Inr) (simp_all add: MAX_VALUE_BYTES_def)
  show ?thesis by (simp add: chain_def 1 2 endCell_Inr valueCell_def)
qed

lemma valueCell_overflow:
  assumes "MAX_VALUE_BYTES < length buf"
  shows "endCell (chain beginCell [storeUint8 SNAKE_PREFIX, storeBuffer buf])
         = Inl LibraryError"
proof -
  have 1: "storeUint8 SNAKE_PREFIX beginCell = Inr (uint_bits 8 SNAKE_PREFIX, [])"
    by (simp add: beginCell_def storeUint8_def storeUint_Inr SNAKE_PREFIX_def)
  have 2: "storeBuffer buf (Inr (uint_bits 8 SNAKE_PREFIX, [])) = Inl LibraryError"
    using assms by (subst storeBuffer_Inr) (simp_all add: MAX_VALUE_BYTES_def)
  show ?thesis by (simp add: chain_def 1 2)
qed

lemma dict_storeCell_eq:
  "dict_storeCell key v items =
     (if key \<in> set (map fst items) then Inl LibraryError else Inr (items @ [(key, v)]))"
  by (simp add: dict_storeCell_def)

lemma storeEntry_eq:
  "storeEntry sha (k, v) d =
     (if \<not> truthy (spec_get k) then Inl (UnsupportedKeyError k)
      else case v of
        None \<Rightarrow> Inr d
      | Some s \<Rightarrow>
          if withinBound k s \<and> sha k \<notin> set (map fst d)
          then Inr (d @ [(sha k, valueCell (Buffer_from s (spec_get k)))])
          else Inl LibraryError)"
proof (cases v)
  case None
  then show ?thesis by (simp add: storeEntry_def)
next
  case (Some s)
  show ?thesis
  proof (cases "withinBound k s")
    case True
    then show ?thesis
      using Some valueCell_built [OF _ Buffer_from_bytes, of s "spec_get k"]
      by (simp add: storeEntry_def withinBound_def dict_storeCell_eq)
  next
    case False
    then show ?thesis
      using Some valueCell_overflow [of "Buffer_from s (spec_get k)"]
      by (simp add: storeEntry_def withinBound_def)
  qed
qed

lemma entryCells_Nil [simp]: "entryCells sha [] = []"
  by (simp add: entryCells_def)

lemma entryCells_Cons_None [simp]: "entryCells sha ((k, None) # m) = entryCells sha m"
  by (simp add: entryCells_def)

lemma entryCells_Cons_Some [simp]:
  "entryCells sha ((k, Some s) # m)
   = (sha k, valueCell (Buffer_from s (spec_get k))) # entryCells sha m"
  by (simp add: entryCells_def)

lemma forEach_storeEntry_Inr:
  "encodable m \<Longrightarrow> distinct (map fst (d @ entryCells sha m)) \<Longrightarrow>
   forEach (storeEntry sha) m d = Inr (d @ entryCells sha m)"
proof (induction m arbitrary: d)
  case Nil
  then show ?case by simp
next
  case (Cons kv m)
  obtain k v where kv: "kv = (k, v)" by (cases kv)
  from Cons.prems(1) have ok: "truthy (spec_get k)" and rest: "encodable m"
    by (simp_all add: encodable_def kv)
  show ?case
  proof (cases v)
    case None
    then show ?thesis using Cons.prems ok rest by (simp add: kv storeEntry_eq Cons.IH)
  next
    case (Some s)
    from Cons.prems(1) have fit: "withinBound k s" by (simp add: encodable_def kv Some)
    from Cons.prems(2) have fresh: "sha k \<notin> set (map fst d)" by (auto simp add: kv Some)
    let ?d = "d @ [(sha k, valueCell (Buffer_from s (spec_get k)))]"
    from Cons.prems(2) have "distinct (map fst (?d @ entryCells sha m))"
      by (simp add: kv Some)
    then have "forEach (storeEntry sha) m ?d = Inr (?d @ entryCells sha m)"
      using rest by (intro Cons.IH)
    then show ?thesis using ok fit fresh by (simp add: kv Some storeEntry_eq)
  qed
qed

lemma forEach_storeEntry_succeeds:
  "forEach (storeEntry sha) m d = Inr items \<Longrightarrow> distinct (map fst d) \<Longrightarrow>
   encodable m \<and> distinct (map fst (d @ entryCells sha m)) \<and> items = d @ entryCells sha m"
proof (induction m arbitrary: d)
  case Nil
  then show ?case by (simp add: encodable_def)
next
  case (Cons kv m)
  obtain k v where kv: "kv = (k, v)" by (cases kv)
  from Cons.prems(1) have ok: "truthy (spec_get k)"
    by (auto simp add: kv storeEntry_eq split: if_splits)
  show ?case
  proof (cases v)
    case None
    with Cons.prems ok have "forEach (storeEntry sha) m d = Inr items"
      by (simp add: kv storeEntry_eq)
    from Cons.IH [OF this Cons.prems(2)] show ?thesis
      using ok by (simp add: kv None encodable_def)
  next
    case (Some s)
    let ?d = "d @ [(sha k, valueCell (Buffer_from s (spec_get k)))]"
    from Cons.prems(1) ok have fit: "withinBound k s \<and> sha k \<notin> set (map fst d)"
      by (auto simp add: kv Some storeEntry_eq split: if_splits)
    with Cons.prems(1) ok have run: "forEach (storeEntry sha) m ?d = Inr items"
      by (simp add: kv Some storeEntry_eq)
    have "distinct (map fst ?d)" using fit Cons.prems(2) by simp
    from Cons.IH [OF run this] show ?thesis
      using ok fit by (simp add: kv Some encodable_def)
  qed
qed

lemma forEach_storeEntry_error:
  "forEach (storeEntry sha) m d = Inl e \<Longrightarrow>
   e = LibraryError \<or> (\<exists>k. e = UnsupportedKeyError k)"
proof (induction m arbitrary: d)
  case Nil
  then show ?case by simp
next
  case (Cons kv m)
  obtain k v where kv: "kv = (k, v)" by (cases kv)
  show ?case
  proof (cases "storeEntry sha (k, v) d")
    case (Inl e')
    then have "e' = LibraryError \<or> e' = UnsupportedKeyError k"
      by (auto simp add: storeEntry_eq split: if_splits option.splits)
    moreover have "e = e'" using Cons.prems Inl by (simp add: kv)
    ultimately show ?thesis by auto
  next
    case (Inr d')
    then show ?thesis using Cons.prems Cons.IH [of d'] by (simp add: kv)
  qed
qed

lemma content_cell_built:
  "endCell (chain beginCell
     [storeInt (int ONCHAIN_CONTENT_PREFIX) 8, storeDict (endDict fits dict)])
   = (if dict = [] \<or> fits (sort_key fst dict) then Inr (contentCell dict)
      else Inl LibraryError)"
proof -
  have 1: "storeInt (int ONCHAIN_CONTENT_PREFIX) 8 beginCell
           = Inr (uint_bits 8 (nat (int ONCHAIN_CONTENT_PREFIX mod 256)), [])"
    using storeInt8_Inr [of "int ONCHAIN_CONTENT_PREFIX" "[]" "[]"]
    by (simp add: beginCell_def ONCHAIN_CONTENT_PREFIX_def)
  have 2: "nat (int ONCHAIN_CONTENT_PREFIX mod 256) = ONCHAIN_CONTENT_PREFIX"
    by (simp add: ONCHAIN_CONTENT_PREFIX_def)
  show ?thesis
    by (simp add: chain_def 1 2 storeDict_def endDict_def storeBit_Inr endCell_Inr
          contentCell_def)
qed

lemma buildOnChainData_Inr_iff:
  "buildOnChainData sha fits m = Inr c \<longleftrightarrow>
     encodable m \<and> distinct (map fst (entryCells sha m)) \<and> serializable sha fits m
     \<and> c = contentCell (entryCells sha m)"
proof
  assume built: "buildOnChainData sha fits m = Inr c"
  then obtain items where run: "forEach (storeEntry sha) m [] = Inr items"
    and c: "(items = [] \<or> fits (sort_key fst items)) \<and> c = contentCell items"
    by (cases "forEach (storeEntry sha) m []")
       (auto simp add: buildOnChainData_def beginDict_def content_cell_built
             split: if_splits)
  from forEach_storeEntry_succeeds [OF run] c
  show "encodable m \<and> distinct (map fst (entryCells sha m)) \<and> serializable sha fits m
        \<and> c = contentCell (entryCells sha m)"
    by (simp add: serializable_def)
next
  assume "encodable m \<and> distinct (map fst (entryCells sha m)) \<and> serializable sha fits m
          \<and> c = contentCell (entryCells sha m)"
  then show "buildOnChainData sha fits m = Inr c"
    using forEach_storeEntry_Inr [of m "[]" sha]
    by (auto simp add: buildOnChainData_def beginDict_def content_cell_built
          serializable_def)
qed

lemma buildOnChainData_error:
  "buildOnChainData sha fits m = Inl e \<Longrightarrow>
   e = LibraryError \<or> (\<exists>k. e = UnsupportedKeyError k)"
  by (cases "forEach (storeEntry sha) m []")
     (auto simp add: buildOnChainData_def beginDict_def content_cell_built
           dest: forEach_storeEntry_error split: if_splits)

lemma recognizedKeys_eq:
  "recognizedKeys = [str ''name'', str ''description'', str ''image'', str ''symbol'']"
  by (simp add: recognizedKeys_def jettonOnChainMetadataSpec_def)

lemma recognized_own:
  "k \<in> set recognizedKeys \<Longrightarrow> \<exists>enc. spec_get k = OwnEncoding enc"
  by (auto simp add: recognizedKeys_eq spec_get_def jettonOnChainMetadataSpec_def)

lemma recognized_truthy: "k \<in> set recognizedKeys \<Longrightarrow> truthy (spec_get k)"
  by (auto simp add: truthy_def dest: recognized_own)

lemma validMetadata_encodable: "validMetadata m \<Longrightarrow> encodable m"
  by (auto simp add: validMetadata_def encodable_def list_all_iff recognized_truthy)

lemma map_fst_entryCells:
  "map fst (entryCells sha m) = map sha (map fst (filter (\<lambda>kv. snd kv \<noteq> None) m))"
proof (induction m)
  case Nil
  then show ?case by simp
next
  case (Cons kv m)
  then show ?case by (cases kv; cases "snd kv") simp_all
qed

lemma distinct_entryCells:
  assumes "distinct (map fst m)" and "inj_on sha (set (map fst m))"
  shows "distinct (map fst (entryCells sha m))"
proof -
  let ?ks = "map fst (filter (\<lambda>kv. snd kv \<noteq> None) m)"
  have "distinct ?ks" using assms(1) by (rule distinct_map_filter)
  moreover have "inj_on sha (set ?ks)"
    using assms(2) by (rule inj_on_subset) auto
  ultimately have "distinct (map sha ?ks)" by (simp only: distinct_map)
  then show ?thesis by (simp only: map_fst_entryCells)
qed

lemma validMetadata_keys: "validMetadata m \<Longrightarrow> set (map fst m) \<subseteq> set recognizedKeys"
  by (auto simp add: validMetadata_def list_all_iff)

lemma validMetadata_builds:
  assumes "validMetadata m" and "inj_on sha (set recognizedKeys)"
    and "serializable sha fits m"
  shows "buildOnChainData sha fits m = Inr (contentCell (entryCells sha m))"
proof -
  have "inj_on sha (set (map fst m))"
    using assms(2) validMetadata_keys [OF assms(1)] by (rule inj_on_subset)
  moreover have "distinct (map fst m)" using assms(1) by (simp add: validMetadata_def)
  ultimately have "distinct (map fst (entryCells sha m))" by (simp add: distinct_entryCells)
  then show ?thesis
    using validMetadata_encodable [OF assms(1)] assms(3)
    by (simp add: buildOnChainData_Inr_iff)
qed

section \<open>initData\<close>

lemma initData_unfold:
  "initData sha fits code owner data =
     endCell (storeRef (Inr code) (storeRef (buildOnChainData sha fits data)
       (storeAddress (Some owner) (storeCoins 0 beginCell))))"
  by (simp add: initData_def chain_def)

lemma zero_coins_stored: "storeCoins 0 beginCell = Inr ([] @ coins_bits 0, [])"
  unfolding beginCell_def using zero_is_coins by (rule storeCoins_Inr) simp

lemma initData_head_storable:
  assumes "storableOwner owner"
  shows "storeAddress (Some owner) (storeCoins 0 beginCell)
         = Inr (coins_bits 0 @ address_bits (Some owner), [])"
proof -
  have "storeAddress (Some owner) (Inr ([] @ coins_bits 0, []))
           = Inr (([] @ coins_bits 0) @ address_bits (Some owner), [])"
    using assms
    by (intro storeAddress_stored) (simp_all add: storableOwner_def length_coins_bits)
  then show ?thesis by (simp only: zero_coins_stored) simp
qed

lemma wellFormed_storable: "wellFormedAddress owner \<Longrightarrow> storableOwner owner"
  by (simp add: wellFormedAddress_def storableOwner_def)

lemma initData_head:
  assumes "wellFormedAddress owner"
  shows "storeAddress (Some owner) (storeCoins 0 beginCell)
         = Inr (coins_bits 0 @ address_bits (Some owner), [])"
  using assms by (intro initData_head_storable wellFormed_storable)

lemma initData_of_content_storable:
  assumes "storableOwner owner"
  shows "initData sha fits code owner data =
     bindE (buildOnChainData sha fits data)
       (\<lambda>content. Inr (Cell (coins_bits 0 @ address_bits (Some owner)) [content, code]))"
  by (cases "buildOnChainData sha fits data")
     (simp_all add: initData_unfold initData_head_storable [OF assms] storeRef_Inr
        storeRef_Inl_arg endCell_Inr)

lemma initData_of_content:
  assumes "wellFormedAddress owner"
  shows "initData sha fits code owner data =
     bindE (buildOnChainData sha fits data)
       (\<lambda>content. Inr (Cell (coins_bits 0 @ address_bits (Some owner)) [content, code]))"
  using assms by (intro initData_of_content_storable wellFormed_storable)

text \<open>Where an error of a store comes from: the builder it was given, or the library.\<close>

lemma writeBits_error: "writeBits new r = Inl e \<Longrightarrow> r = Inl e \<or> e = LibraryError"
  by (cases r) (auto simp add: writeBits_def split: if_splits)

lemma storeUint_error: "storeUint v n r = Inl e \<Longrightarrow> r = Inl e \<or> e = LibraryError"
  by (cases r) (auto simp add: storeUint_def dest: writeBits_error split: if_splits)

lemma storeBit_error: "storeBit v r = Inl e \<Longrightarrow> r = Inl e \<or> e = LibraryError"
  by (auto simp add: storeBit_def dest: writeBits_error)

lemma storeInt_error:
  assumes err: "storeInt v n r = Inl e"
  shows "r = Inl e \<or> e = LibraryError"
proof (cases r)
  case (Inl e')
  with err show ?thesis by simp
next
  case (Inr b)
  have sign: "storeBit True r = Inl e' \<Longrightarrow> e' = LibraryError" for e'
    using Inr by (auto dest: storeBit_error)
  have "e = LibraryError"
  proof (cases "storeBit True r")
    case (Inl e')
    with sign have "storeBit True r = Inl LibraryError" by simp
    with err Inr show ?thesis
      by (auto simp add: storeInt_def dest!: storeUint_error storeBit_error
            split: if_splits)
  next
    case signed: (Inr b')
    with err Inr show ?thesis
      by (auto simp add: storeInt_def dest!: storeUint_error storeBit_error writeBits_error
            split: if_splits)
  qed
  then show ?thesis by simp
qed

lemma storeBuffer_error: "storeBuffer buf r = Inl e \<Longrightarrow> r = Inl e \<or> e = LibraryError"
proof (induction buf arbitrary: r)
  case Nil
  then show ?case by simp
next
  case (Cons byte buf)
  from Cons.prems have "storeBuffer buf (storeUint byte 8 r) = Inl e"
    by (simp add: storeBuffer_Cons)
  then have "storeUint byte 8 r = Inl e \<or> e = LibraryError" by (rule Cons.IH)
  then show ?case by (auto dest: storeUint_error)
qed

lemma storeCoins_error: "storeCoins amount r = Inl e \<Longrightarrow> r = Inl e \<or> e = LibraryError"
  by (auto simp add: storeCoins_def dest!: storeUint_error split: if_splits)

lemma storeAddress_error: "storeAddress a r = Inl e \<Longrightarrow> r = Inl e \<or> e = LibraryError"
  by (cases a)
     (auto simp add: storeAddress_def chain_def
           dest!: storeUint_error storeInt_error storeBuffer_error)

lemma storeRef_error: "storeRef c r = Inl e \<Longrightarrow> r = Inl e \<or> c = Inl e"
  by (cases r; cases c) (auto simp add: storeRef_def)

lemma endCell_error: "endCell r = Inl e \<Longrightarrow> r = Inl e"
  by (cases r) (auto simp add: endCell_def)

lemma initData_error:
  assumes "initData sha fits code owner data = Inl e"
  shows "e = LibraryError \<or> (\<exists>k. e = UnsupportedKeyError k)"
proof -
  from assms have "storeRef (Inr code) (storeRef (buildOnChainData sha fits data)
       (storeAddress (Some owner) (storeCoins 0 beginCell))) = Inl e"
    unfolding initData_unfold by (rule endCell_error)
  then have "storeRef (buildOnChainData sha fits data)
       (storeAddress (Some owner) (storeCoins 0 beginCell)) = Inl e"
    by (auto dest: storeRef_error)
  then consider "storeAddress (Some owner) (storeCoins 0 beginCell) = Inl e"
    | "buildOnChainData sha fits data = Inl e"
    by (auto dest: storeRef_error)
  then show ?thesis
  proof cases
    case 1
    then have "storeCoins 0 beginCell = Inl e \<or> e = LibraryError"
      by (rule storeAddress_error)
    then show ?thesis by (auto simp add: beginCell_def dest: storeCoins_error)
  next
    case 2
    then show ?thesis by (rule buildOnChainData_error)
  qed
qed

text \<open>A workchain of 128 or more does not fit the 8-bit field, and the builder throws.\<close>

lemma storeInt8_too_big:
  assumes "128 \<le> v"
  shows "storeInt v 8 (Inr (bits, refs)) = Inl LibraryError"
proof (cases "storeBit False (Inr (bits, refs))")
  case (Inl e)
  then have "e = LibraryError" by (auto dest: storeBit_error)
  with Inl assms show ?thesis by (simp add: storeInt_def)
next
  case (Inr b)
  have "2 ^ 7 \<le> nat v" using assms by simp
  then have "storeUint (nat v) 7 (Inr b) = Inl LibraryError" by (rule storeUint_too_big)
  with Inr assms show ?thesis by (simp add: storeInt_def)
qed

lemma initData_workchain_too_big:
  assumes "128 \<le> workChain owner"
  shows "initData sha fits code owner data = Inl LibraryError"
proof -
  have 2: "storeUint 2 2 (Inr ([] @ coins_bits 0, [])) = Inr (([] @ coins_bits 0) @ [True, False], [])"
    using uint_bits_2_2 by (simp add: storeUint_Inr length_coins_bits)
  have 3: "storeUint 0 1 (Inr (([] @ coins_bits 0) @ [True, False], []))
           = Inr ((([] @ coins_bits 0) @ [True, False]) @ [False], [])"
    by (simp add: storeUint_Inr length_coins_bits)
  have 4: "storeInt (workChain owner) 8 (Inr ((([] @ coins_bits 0) @ [True, False]) @ [False], []))
           = Inl LibraryError"
    using assms by (rule storeInt8_too_big)
  have "storeAddress (Some owner) (storeCoins 0 beginCell)
        = storeBuffer (hash owner)
            (storeInt (workChain owner) 8 (storeUint 0 1 (storeUint 2 2 (storeCoins 0 beginCell))))"
    by (simp add: storeAddress_def chain_def)
  also have "\<dots> = Inl LibraryError"
    by (simp only: zero_coins_stored 2 3 4 storeBuffer_Inl)
  finally show ?thesis by (simp add: initData_unfold)
qed

section \<open>parseOnChainData: reading back what was built\<close>

lemma nat_of_bits_snoc: "nat_of_bits (bits @ [b]) = 2 * nat_of_bits bits + of_bool b"
  by (simp add: nat_of_bits_def)

lemma nat_of_uint_bits: "nat_of_bits (uint_bits n v) = v mod 2 ^ n"
proof (induction n arbitrary: v)
  case 0
  then show ?case by (simp add: nat_of_bits_def)
next
  case (Suc n)
  have "v mod 2 ^ Suc n = 2 * (v div 2 mod 2 ^ n) + v mod 2"
    by (simp add: mod_mult2_eq)
  moreover have "(of_bool (odd v) :: nat) = v mod 2"
    by (simp add: mod2_eq_if)
  ultimately show ?case by (simp add: nat_of_bits_snoc Suc.IH)
qed

lemma readUint_uint_bits:
  "readUint n (uint_bits n v @ rest, refs) = Inr (v mod 2 ^ n, (rest, refs))"
  by (simp add: readUint_def nat_of_uint_bits)

lemma length_8_list:
  assumes "length xs = 8"
  obtains b7 b6 b5 b4 b3 b2 b1 b0 where "xs = [b7, b6, b5, b4, b3, b2, b1, b0]"
  using assms by (auto simp add: eval_nat_numeral length_Suc_conv)

lemma bytes_of_bits_byte:
  assumes "length xs = 8"
  shows "bytes_of_bits (xs @ rest) = nat_of_bits xs # bytes_of_bits rest"
proof -
  from assms obtain b7 b6 b5 b4 b3 b2 b1 b0 where "xs = [b7, b6, b5, b4, b3, b2, b1, b0]"
    by (rule length_8_list)
  then show ?thesis by simp
qed

lemma bytes_of_buffer_bits:
  "list_all (\<lambda>b. b < 256) buf \<Longrightarrow> bytes_of_bits (buffer_bits buf) = buf"
proof (induction buf)
  case Nil
  then show ?case by (simp add: buffer_bits_def)
next
  case (Cons byte buf)
  then show ?case
    by (simp add: buffer_bits_Cons bytes_of_bits_byte nat_of_uint_bits)
qed

lemma extractValue_valueCell:
  assumes "list_all (\<lambda>b. b < 256) buf"
  shows "extractValue (valueCell buf) = Inr buf"
proof -
  have "readUint 8 (uint_bits 8 SNAKE_PREFIX @ buffer_bits buf, [])
        = Inr (SNAKE_PREFIX mod 2 ^ 8, (buffer_bits buf, []))"
    by (rule readUint_uint_bits)
  moreover have "readRemainingBytes (buffer_bits buf, []) = Inr buf"
    using assms by (simp add: readRemainingBytes_def bytes_of_buffer_bits)
  ultimately show ?thesis
    by (simp add: extractValue_def valueCell_def beginParse_def SNAKE_PREFIX_def)
qed

lemma payload_valueCell:
  "list_all (\<lambda>b. b < 256) buf \<Longrightarrow> payload (valueCell buf) = buf"
  by (simp add: payload_def extractValue_valueCell)

lemma extractAll_Inr:
  assumes "\<And>key c. (key, c) \<in> set items \<Longrightarrow> \<exists>buf. extractValue c = Inr buf"
  shows "extractAll extractValue items = Inr (map (\<lambda>(key, c). (key, payload c)) items)"
  using assms
proof (induction items)
  case Nil
  then show ?case by simp
next
  case (Cons item items)
  obtain key c where item: "item = (key, c)" by (cases item)
  from Cons.prems [of key c] obtain buf where ex: "extractValue c = Inr buf"
    by (auto simp add: item)
  have "extractAll extractValue items = Inr (map (\<lambda>(key, c). (key, payload c)) items)"
    using Cons.prems by (intro Cons.IH) auto
  then show ?case by (simp add: item ex payload_def)
qed

lemma entryCells_extractable:
  assumes "(key, c) \<in> set (entryCells sha m)"
  shows "\<exists>buf. extractValue c = Inr buf"
  using assms
proof (induction m)
  case Nil
  then show ?case by simp
next
  case (Cons kv m)
  obtain k v where kv: "kv = (k, v)" by (cases kv)
  show ?case
  proof (cases v)
    case None
    then show ?thesis using Cons by (simp add: kv)
  next
    case (Some s)
    then show ?thesis
      using Cons extractValue_valueCell [OF Buffer_from_bytes, of s "spec_get k"]
      by (auto simp add: kv)
  qed
qed

lemma map_of_sort_key:
  assumes "distinct (map fst items)"
  shows "map_of (sort_key fst items) = map_of items"
proof -
  have "mset (map fst (sort_key fst items)) = mset (map fst items)" by simp
  then have "distinct (map fst (sort_key fst items))"
    using assms by (metis mset_eq_imp_distinct_iff)
  then show ?thesis using assms by (simp add: map_of_inject_set)
qed

text \<open>What the dictionary read back from a built content cell holds for a key.\<close>

lemma map_of_entryCells:
  assumes "distinct (map fst m)" and "inj_on sha (insert k (set (map fst m)))"
  shows "map_of (entryCells sha m) (sha k)
         = map_option (\<lambda>s. valueCell (Buffer_from s (spec_get k))) (asMapping m k)"
  using assms
proof (induction m)
  case Nil
  then show ?case by (simp add: asMapping_def)
next
  case (Cons kv m)
  obtain k' v where kv: "kv = (k', v)" by (cases kv)
  from Cons.prems have d: "distinct (map fst m)" and fresh: "k' \<notin> set (map fst m)"
    and inj: "inj_on sha (insert k (set (map fst m)))"
    and eq: "sha k' = sha k \<longleftrightarrow> k' = k"
    by (auto simp add: kv inj_on_def)
  have IH: "map_of (entryCells sha m) (sha k)
            = map_option (\<lambda>s. valueCell (Buffer_from s (spec_get k))) (asMapping m k)"
    using d inj by (rule Cons.IH)
  show ?case
  proof (cases "k' = k")
    case True
    with fresh have "map_of m k = None" by (simp add: map_of_eq_None_iff)
    then have none: "asMapping m k = None" by (simp add: asMapping_def)
    show ?thesis
    proof (cases v)
      case None
      then show ?thesis using True IH none by (simp add: kv asMapping_def)
    next
      case (Some s)
      then show ?thesis using True by (simp add: kv asMapping_def)
    qed
  next
    case False
    then have "asMapping (kv # m) k = asMapping m k" by (simp add: kv asMapping_def)
    then show ?thesis using False IH eq by (cases v) (simp_all add: kv)
  qed
qed

lemma collectKey_eq:
  "collectKey sha dict (k, enc) res =
     (case decodedValue enc (map_of dict (sha k)) of
        None \<Rightarrow> res | Some val \<Rightarrow> res @ [(k, val)])"
  by (simp add: collectKey_def decodedValue_def split: option.split)

lemma foldl_collectKey:
  "foldl (\<lambda>res ke. collectKey sha dict ke res) acc ks
   = acc @ List.map_filter
       (\<lambda>(k, enc). map_option (Pair k) (decodedValue enc (map_of dict (sha k)))) ks"
proof (induction ks arbitrary: acc)
  case Nil
  then show ?case by simp
next
  case (Cons ke ks)
  obtain k enc where ke: "ke = (k, enc)" by (cases ke)
  show ?case
    by (cases "decodedValue enc (map_of dict (sha k))")
       (simp_all add: ke Cons.IH collectKey_eq)
qed

lemma map_filter_keys:
  "set (map fst (List.map_filter (\<lambda>(k, e). map_option (Pair k) (h k e)) ks))
   \<subseteq> set (map fst ks)"
  by (induction ks) (auto split: option.splits)

lemma map_of_map_filter:
  "distinct (map fst ks) \<Longrightarrow>
   map_of (List.map_filter (\<lambda>(k, e). map_option (Pair k) (h k e)) ks) k
   = Option.bind (map_of ks k) (h k)"
proof (induction ks)
  case Nil
  then show ?case by simp
next
  case (Cons ke ks)
  obtain k' e where ke: "ke = (k', e)" by (cases ke)
  from Cons.prems have fresh: "k' \<notin> set (map fst ks)" and d: "distinct (map fst ks)"
    by (simp_all add: ke)
  have IH: "map_of (List.map_filter (\<lambda>(k, e). map_option (Pair k) (h k e)) ks) k
            = Option.bind (map_of ks k) (h k)"
    using d by (rule Cons.IH)
  show ?case
  proof (cases "k' = k")
    case True
    with fresh have "map_of ks k = None" by (simp add: map_of_eq_None_iff)
    then show ?thesis using True IH
      by (cases "h k e") (simp_all add: ke)
  next
    case False
    then show ?thesis using IH
      by (cases "h k' e") (simp_all add: ke)
  qed
qed

lemma distinct_map_filter_keys:
  "distinct (map fst ks) \<Longrightarrow>
   distinct (map fst (List.map_filter (\<lambda>(k, e). map_option (Pair k) (h k e)) ks))"
proof (induction ks)
  case Nil
  then show ?case by simp
next
  case (Cons ke ks)
  obtain k' e where ke: "ke = (k', e)" by (cases ke)
  from Cons.prems have fresh: "k' \<notin> set (map fst ks)" and d: "distinct (map fst ks)"
    by (simp_all add: ke)
  have "k' \<notin> set (map fst (List.map_filter (\<lambda>(k, e). map_option (Pair k) (h k e)) ks))"
    using fresh map_filter_keys [of h ks] by blast
  then show ?case using Cons.IH [OF d]
    by (cases "h k' e") (simp_all add: ke)
qed

lemma spec_keys_distinct: "distinct (map fst jettonOnChainMetadataSpec)"
  by (simp add: jettonOnChainMetadataSpec_def str_def)

text \<open>
  The result of the loop over the recognized keys, for any dictionary that was read.
\<close>

lemma collected_lookup:
  "map_of (foldl (\<lambda>res ke. collectKey sha dict ke res) [] jettonOnChainMetadataSpec) k
   = (case map_of jettonOnChainMetadataSpec k of
        None \<Rightarrow> None | Some enc \<Rightarrow> decodedValue enc (map_of dict (sha k)))"
  by (simp add: foldl_collectKey map_of_map_filter [OF spec_keys_distinct]
        split: option.split)

lemma collected_distinct:
  "distinct (map fst (foldl (\<lambda>res ke. collectKey sha dict ke res) []
                        jettonOnChainMetadataSpec))"
  by (simp add: foldl_collectKey distinct_map_filter_keys [OF spec_keys_distinct])

lemma readUint_marker:
  "readUint 8 (uint_bits 8 ONCHAIN_CONTENT_PREFIX @ rest, refs)
   = Inr (ONCHAIN_CONTENT_PREFIX, (rest, refs))"
  using readUint_uint_bits [of 8 ONCHAIN_CONTENT_PREFIX rest refs]
  by (simp add: ONCHAIN_CONTENT_PREFIX_def)

lemma parse_contentCell:
  "items \<noteq> [] \<Longrightarrow>
   parseOnChainData sha (contentCell items) =
     bindE (extractAll extractValue (sort_key fst items))
       (\<lambda>dict. Inr (foldl (\<lambda>res ke. collectKey sha dict ke res) []
                      jettonOnChainMetadataSpec))"
  by (simp add: parseOnChainData_def contentCell_def beginParse_def readUint_marker
        readDict_def)

text \<open>The content cell of the empty dictionary has no reference, and the parser throws.\<close>

lemma parse_empty_contentCell:
  "parseOnChainData sha (contentCell []) = Inl LibraryError"
  by (simp add: parseOnChainData_def contentCell_def beginParse_def readUint_marker
        readDict_def)

lemma entryCells_defined:
  "entryCells sha m \<noteq> [] \<longleftrightarrow> definesValue m"
proof (induction m)
  case Nil
  then show ?case by (simp add: definesValue_def)
next
  case (Cons kv m)
  obtain k v where kv: "kv = (k, v)" by (cases kv)
  from Cons show ?case by (cases v) (simp_all add: kv definesValue_def)
qed

lemma map_of_payloads:
  "map_of (map (\<lambda>(key, c). (key, payload c)) items) key
   = map_option payload (map_of items key)"
  by (induction items) auto

lemma validMetadata_roundtrip:
  assumes valid: "validMetadata m" and inj: "inj_on sha (set recognizedKeys)"
    and defined: "definesValue m"
  shows "\<exists>res. parseOnChainData sha (contentCell (entryCells sha m)) = Inr res
           \<and> map_of res = decodedMapping m \<and> distinct (map fst res)"
proof -
  let ?items = "entryCells sha m"
  let ?dict = "map (\<lambda>(key, c). (key, payload c)) (sort_key fst ?items)"
  let ?res = "foldl (\<lambda>res ke. collectKey sha ?dict ke res) [] jettonOnChainMetadataSpec"
  have keys: "set (map fst m) \<subseteq> set recognizedKeys"
    using valid by (rule validMetadata_keys)
  have dm: "distinct (map fst m)" using valid by (simp add: validMetadata_def)
  have di: "distinct (map fst ?items)"
    using dm inj keys by (intro distinct_entryCells) (auto intro: inj_on_subset)
  have "extractAll extractValue (sort_key fst ?items) = Inr ?dict"
    by (rule extractAll_Inr) (auto dest: entryCells_extractable)
  moreover have "?items \<noteq> []" using defined by (simp add: entryCells_defined)
  ultimately have parsed: "parseOnChainData sha (contentCell ?items) = Inr ?res"
    by (simp add: parse_contentCell)
  have "map_of ?res k = decodedMapping m k" for k
  proof (cases "map_of jettonOnChainMetadataSpec k")
    case None
    then show ?thesis by (simp add: collected_lookup decodedMapping_def)
  next
    case (Some enc)
    then have rec: "k \<in> set recognizedKeys"
      by (auto simp add: recognizedKeys_def dest: map_of_SomeD intro: rev_image_eqI)
    have sg: "spec_get k = OwnEncoding enc" using Some by (simp add: spec_get_def)
    have "inj_on sha (insert k (set (map fst m)))"
      using inj by (rule inj_on_subset) (use rec keys in auto)
    with dm have "map_of ?items (sha k)
        = map_option (\<lambda>s. valueCell (Buffer_from s (spec_get k))) (asMapping m k)"
      by (rule map_of_entryCells)
    then have "map_of ?dict (sha k)
        = map_option (\<lambda>s. Buffer_from s (OwnEncoding enc)) (asMapping m k)"
      by (cases "asMapping m k")
         (simp_all add: map_of_payloads map_of_sort_key [OF di] sg payload_valueCell
            Buffer_from_bytes)
    then show ?thesis by (simp add: collected_lookup decodedMapping_def Some)
  qed
  then have "map_of ?res = decodedMapping m" by (rule ext)
  with parsed collected_distinct show ?thesis by blast
qed

subsection \<open>Concrete inputs\<close>

lemma lengthDigest_inj: "inj_on lengthDigest (set recognizedKeys)"
  by (simp add: recognizedKeys_eq lengthDigest_def str_def)

lemmas evaluate_metadata =
  validMetadata_def allRepresentable_def representable_def preserved_def isScalarUnit_def
  isLeadSurrogate_def isTrailSurrogate_def recognizedKeys_def
  withinBound_def MAX_VALUE_BYTES_def jettonOnChainMetadataSpec_def str_def Buffer_from_def
  Buffer_toString_def spec_get_def encodeCodePoint_def bytesPerSequence_def
  decodeSequence_def asciiToBytes_def asciiSlice_def asMapping_def decodedValue_def
  Object_prototype_keys_def truthy_def encodable_def

lemma exampleMetadata_valid: "validMetadata exampleMetadata"
  by (simp add: exampleMetadata_def evaluate_metadata)

lemma exampleMetadata_representable: "allRepresentable exampleMetadata"
  by (simp add: exampleMetadata_def evaluate_metadata)

lemma emptyNameMetadata_valid: "validMetadata emptyNameMetadata"
  by (simp add: emptyNameMetadata_def evaluate_metadata)

lemma accentedImageMetadata_valid: "validMetadata accentedImageMetadata"
  by (simp add: accentedImageMetadata_def evaluate_metadata)

lemma loneSurrogateMetadata_valid: "validMetadata loneSurrogateMetadata"
  by (simp add: loneSurrogateMetadata_def evaluate_metadata replacement_def)

text \<open>The stand-in serialiser accepts every mapping whose values have at most 93 bytes.\<close>

lemma fitsLeaf_entryCells:
  assumes "list_all (\<lambda>(k, v). case v of None \<Rightarrow> True
             | Some s \<Rightarrow> length (Buffer_from s (spec_get k)) \<le> 93) m"
  shows "serializable sha fitsLeaf m"
proof -
  have "length bits + 267 \<le> CELL_BITS"
    if "(key, Cell bits refs) \<in> set (entryCells sha m)" for key bits refs
    using that assms
  proof (induction m)
    case Nil
    then show ?case by simp
  next
    case (Cons kv m)
    obtain k v where kv: "kv = (k, v)" by (cases kv)
    show ?case
    proof (cases v)
      case None
      then show ?thesis using Cons by (simp add: kv)
    next
      case (Some s)
      then show ?thesis
        using Cons by (auto simp add: kv valueCell_def CELL_BITS_def)
    qed
  qed
  moreover have "\<exists>bits refs. c = Cell bits refs"
    if "(key, c) \<in> set (entryCells sha m)" for key c
    using that
  proof (induction m)
    case Nil
    then show ?case by simp
  next
    case (Cons kv m)
    obtain k v where kv: "kv = (k, v)" by (cases kv)
    then show ?case using Cons by (cases v) (auto simp add: valueCell_def)
  qed
  ultimately have "fitsLeaf (sort_key fst (entryCells sha m))"
    by (fastforce simp add: fitsLeaf_def list_all_iff split: cell.split)
  then show ?thesis by (simp add: serializable_def)
qed

lemma exampleMetadata_serializable: "serializable sha fitsLeaf exampleMetadata"
  by (rule fitsLeaf_entryCells) (simp add: exampleMetadata_def evaluate_metadata)

lemma emptyNameMetadata_serializable: "serializable sha fitsLeaf emptyNameMetadata"
  by (rule fitsLeaf_entryCells) (simp add: emptyNameMetadata_def evaluate_metadata)

lemma accentedImageMetadata_serializable: "serializable sha fitsLeaf accentedImageMetadata"
  by (rule fitsLeaf_entryCells) (simp add: accentedImageMetadata_def evaluate_metadata)

lemma loneSurrogateMetadata_serializable: "serializable sha fitsLeaf loneSurrogateMetadata"
  by (rule fitsLeaf_entryCells)
     (simp add: loneSurrogateMetadata_def evaluate_metadata replacement_def)

lemma exampleMetadata_defined: "definesValue exampleMetadata"
  by (simp add: exampleMetadata_def definesValue_def)

lemma emptyNameMetadata_defined: "definesValue emptyNameMetadata"
  by (simp add: emptyNameMetadata_def definesValue_def)

lemma accentedImageMetadata_defined: "definesValue accentedImageMetadata"
  by (simp add: accentedImageMetadata_def definesValue_def)

lemma loneSurrogateMetadata_defined: "definesValue loneSurrogateMetadata"
  by (simp add: loneSurrogateMetadata_def definesValue_def)

subsection \<open>The result of decoding an encoding, as a list\<close>

lemma map_filter_cong_set:
  "(\<And>x. x \<in> set xs \<Longrightarrow> f x = g x) \<Longrightarrow> List.map_filter f xs = List.map_filter g xs"
proof (induction xs)
  case Nil
  then show ?case by simp
next
  case (Cons a xs)
  have "List.map_filter f xs = List.map_filter g xs"
    by (rule Cons.IH) (simp add: Cons.prems)
  moreover have "f a = g a" by (simp add: Cons.prems)
  ultimately show ?case by (simp split: option.split)
qed

lemma built_dict_lookup:
  assumes valid: "validMetadata m" and inj: "inj_on sha (set recognizedKeys)"
    and enc: "(k, enc) \<in> set jettonOnChainMetadataSpec"
  shows "map_of (map (\<lambda>(key, c). (key, payload c)) (sort_key fst (entryCells sha m))) (sha k)
         = map_option (\<lambda>s. Buffer_from s (OwnEncoding enc)) (asMapping m k)"
proof -
  have keys: "set (map fst m) \<subseteq> set recognizedKeys"
    using valid by (rule validMetadata_keys)
  have dm: "distinct (map fst m)" using valid by (simp add: validMetadata_def)
  have di: "distinct (map fst (entryCells sha m))"
    using dm inj keys by (intro distinct_entryCells) (auto intro: inj_on_subset)
  have rec: "k \<in> set recognizedKeys"
    using enc by (auto simp add: recognizedKeys_def intro: rev_image_eqI)
  have "map_of jettonOnChainMetadataSpec k = Some enc"
    using enc spec_keys_distinct by simp
  then have sg: "spec_get k = OwnEncoding enc" by (simp add: spec_get_def)
  have "inj_on sha (insert k (set (map fst m)))"
    using inj by (rule inj_on_subset) (use rec keys in auto)
  with dm have "map_of (entryCells sha m) (sha k)
      = map_option (\<lambda>s. valueCell (Buffer_from s (spec_get k))) (asMapping m k)"
    by (rule map_of_entryCells)
  then show ?thesis
    by (cases "asMapping m k")
       (simp_all add: map_of_payloads map_of_sort_key [OF di] sg payload_valueCell
          Buffer_from_bytes)
qed

lemma roundtrip_list:
  assumes valid: "validMetadata m" and inj: "inj_on sha (set recognizedKeys)"
    and ser: "serializable sha fits m" and defined: "definesValue m"
  shows "bindE (buildOnChainData sha fits m) (parseOnChainData sha)
         = Inr (List.map_filter
             (\<lambda>(k, enc). map_option (Pair k)
                (decodedValue enc
                   (map_option (\<lambda>s. Buffer_from s (OwnEncoding enc)) (asMapping m k))))
             jettonOnChainMetadataSpec)"
proof -
  let ?dict = "map (\<lambda>(key, c). (key, payload c)) (sort_key fst (entryCells sha m))"
  have "extractAll extractValue (sort_key fst (entryCells sha m)) = Inr ?dict"
    by (rule extractAll_Inr) (auto dest: entryCells_extractable)
  then have "bindE (buildOnChainData sha fits m) (parseOnChainData sha)
      = Inr (List.map_filter
          (\<lambda>(k, enc). map_option (Pair k) (decodedValue enc (map_of ?dict (sha k))))
          jettonOnChainMetadataSpec)"
    using defined
    by (simp add: validMetadata_builds [OF valid inj ser] parse_contentCell foldl_collectKey
          entryCells_defined)
  also have "List.map_filter
          (\<lambda>(k, enc). map_option (Pair k) (decodedValue enc (map_of ?dict (sha k))))
          jettonOnChainMetadataSpec
      = List.map_filter
             (\<lambda>(k, enc). map_option (Pair k)
                (decodedValue enc
                   (map_option (\<lambda>s. Buffer_from s (OwnEncoding enc)) (asMapping m k))))
             jettonOnChainMetadataSpec"
    by (rule map_filter_cong_set) (auto simp add: built_dict_lookup [OF valid inj])
  finally show ?thesis .
qed

lemma emptyName_decoded:
  "bindE (buildOnChainData lengthDigest fitsLeaf emptyNameMetadata) (parseOnChainData lengthDigest)
   = Inr []"
  by (simp add: roundtrip_list
        [OF emptyNameMetadata_valid lengthDigest_inj emptyNameMetadata_serializable emptyNameMetadata_defined])
     (simp add: emptyNameMetadata_def evaluate_metadata)

lemma accentedImage_decoded:
  "bindE (buildOnChainData lengthDigest fitsLeaf accentedImageMetadata) (parseOnChainData lengthDigest)
   = Inr [(str ''image'', [0x69])]"
  by (simp add: roundtrip_list
        [OF accentedImageMetadata_valid lengthDigest_inj accentedImageMetadata_serializable accentedImageMetadata_defined])
     (simp add: accentedImageMetadata_def evaluate_metadata)

lemma loneSurrogate_decoded:
  "bindE (buildOnChainData lengthDigest fitsLeaf loneSurrogateMetadata)
     (parseOnChainData lengthDigest) = Inr [(str ''name'', [0xFFFD])]"
  by (simp add: roundtrip_list
        [OF loneSurrogateMetadata_valid lengthDigest_inj loneSurrogateMetadata_serializable loneSurrogateMetadata_defined])
     (simp add: loneSurrogateMetadata_def evaluate_metadata replacement_def
        isContinuation_def)

lemma empty_mapping_built: "buildOnChainData sha fits [] = Inr (contentCell [])"
  by (simp add: buildOnChainData_Inr_iff encodable_def serializable_def)

section \<open>Values that survive their encoding\<close>

lemma and_mask_small:
  fixes c :: nat
  assumes "c < 2 ^ n"
  shows "c AND mask n = c"
  using assms by (simp add: take_bit_eq_mask [symmetric] take_bit_nat_eq_self)

lemma and_255_small: "(c::nat) < 128 \<Longrightarrow> c AND 0xFF = c"
  using and_mask_small [of c 8] by (simp add: mask_eq_exp_minus_1)

lemma and_127_small: "(c::nat) < 128 \<Longrightarrow> c AND 0x7F = c"
  using and_mask_small [of c 7] by (simp add: mask_eq_exp_minus_1)

lemma ascii_utf8ToBytes:
  "list_all (\<lambda>c. c < 128) s \<Longrightarrow> utf8ToBytes None s = s"
  by (induction s) (simp_all add: encodeCodePoint_def)

lemma ascii_utf8Slice:
  "list_all (\<lambda>b. b < 128) buf \<Longrightarrow> utf8Slice buf = buf"
  by (induction buf) (simp_all add: bytesPerSequence_def decodeSequence_def)

lemma ascii_asciiToBytes:
  "list_all (\<lambda>c. c < 128) s \<Longrightarrow> asciiToBytes s = s"
  by (induction s) (simp_all add: asciiToBytes_def and_255_small)

lemma ascii_asciiSlice:
  "list_all (\<lambda>b. b < 128) buf \<Longrightarrow> asciiSlice buf = buf"
  by (induction buf) (simp_all add: asciiSlice_def and_127_small)


subsection \<open>The ascii codec\<close>

lemma ascii_roundtrip_iff:
  "asciiSlice (asciiToBytes s) = s \<longleftrightarrow> list_all (\<lambda>c. c < 128) s"
proof
  assume eq: "asciiSlice (asciiToBytes s) = s"
  have low: "(b::nat) AND 0x7F < 128" for b
  proof -
    have "(0x7F::nat) = mask 7" by (simp add: mask_eq_exp_minus_1)
    then have "b AND 0x7F = take_bit 7 b" by (simp only: take_bit_eq_mask)
    moreover have "take_bit 7 b < 2 ^ 7" by (rule take_bit_nat_less_exp)
    ultimately show ?thesis by simp
  qed
  have "list_all (\<lambda>c. c < 128) (asciiSlice buf)" for buf
    by (simp add: asciiSlice_def list_all_iff low)
  with eq show "list_all (\<lambda>c. c < 128) s" by metis
next
  assume "list_all (\<lambda>c. c < 128) s"
  then show "asciiSlice (asciiToBytes s) = s"
    by (simp add: ascii_asciiToBytes ascii_asciiSlice)
qed

subsection \<open>Bitwise operations of the utf8 codec as arithmetic\<close>

lemma or_add:
  fixes a b :: nat
  assumes "a < 2 ^ n"
  shows "push_bit n b OR a = b * 2 ^ n + a"
proof -
  have a: "take_bit n a = a" using assms by (simp add: take_bit_nat_eq_self)
  have "push_bit n b AND take_bit n a = 0"
    by (rule bit_eqI) (auto simp add: bit_simps)
  then have "push_bit n b + a = push_bit n b OR a"
    using a by (simp add: disjunctive_add_eq_or)
  then show ?thesis by (simp add: push_bit_eq_mult)
qed

lemma or_plus:
  fixes a k :: nat
  assumes "a < 2 ^ n" and "2 ^ n dvd k"
  shows "a OR k = a + k" and "k OR a = k + a"
proof -
  from assms(2) obtain b where "k = b * 2 ^ n" by (auto simp add: dvd_def mult.commute)
  then have "k OR a = k + a" using or_add [OF assms(1), of b] by (simp add: push_bit_eq_mult)
  then show "a OR k = a + k" and "k OR a = k + a" by (simp_all add: or.commute)
qed

lemma and_mask_mod:
  fixes x k :: nat
  assumes "Suc k = 2 ^ n"
  shows "x AND k = x mod 2 ^ n"
proof -
  have "k = mask n" using assms by (simp add: mask_eq_exp_minus_1)
  then show ?thesis by (simp add: take_bit_eq_mod flip: take_bit_eq_mask)
qed

lemma and_3F: "(x::nat) AND 0x3F = x mod 64"
  using and_mask_mod [of "0x3F" 6 x] by simp

lemma and_1F: "(x::nat) AND 0x1F = x mod 32"
  using and_mask_mod [of "0x1F" 5 x] by simp

lemma and_0F: "(x::nat) AND 0xF = x mod 16"
  using and_mask_mod [of "0xF" 4 x] by simp

lemma and_3FF: "(x::nat) AND 0x3FF = x mod 1024"
  using and_mask_mod [of "0x3FF" 10 x] by simp

lemma and_FF: "(x::nat) AND 0xFF = x mod 256"
  using and_mask_mod [of "0xFF" 8 x] by simp

lemma and_or_distrib_nat: "(x::nat) AND (y OR z) = (x AND y) OR (x AND z)"
  by (rule bit_eqI) (auto simp add: bit_and_iff bit_or_iff)

lemma and_C0: "(x::nat) AND 0xC0 = x mod 256 - x mod 64"
proof -
  have "(x AND 0xC0) AND (x AND 0x3F) = x AND (0xC0 AND 0x3F)"
    by (simp add: ac_simps)
  also have "\<dots> = 0" by simp
  finally have "(x AND 0xC0) + (x AND 0x3F) = (x AND 0xC0) OR (x AND 0x3F)"
    by (rule disjunctive_add_eq_or)
  also have "\<dots> = x AND (0xC0 OR 0x3F)" by (simp only: and_or_distrib_nat)
  also have "\<dots> = x mod 256" by (simp add: and_FF)
  finally show ?thesis by (simp add: and_3F)
qed

lemma isContinuation_iff: "isContinuation b \<longleftrightarrow> b mod 256 - b mod 64 = 128"
  by (simp add: isContinuation_def and_C0)

lemma mod_plus_multiple:
  fixes a k n :: nat
  assumes "a < n" and "n dvd k"
  shows "(a + k) mod n = a"
proof -
  from assms(2) obtain q where "k = n * q" by (auto simp add: dvd_def)
  then show ?thesis using assms(1) by simp
qed

lemma isContinuation_tail:
  assumes "r < 64"
  shows "isContinuation (r + 128)"
proof -
  have "(r + 128) mod 64 = r" using assms by (rule mod_plus_multiple) simp
  moreover have "(r + 128) mod 256 = r + 128" using assms by simp
  ultimately show ?thesis by (simp add: isContinuation_iff)
qed

lemma tail_byte: "((x::nat) AND 0x3F) OR 0x80 = x mod 64 + 128"
  using or_plus(1) [where n = 7 and a = "x mod 64" and k = 128] by (simp add: and_3F)

lemma tail_payload:
  fixes r :: nat
  assumes "r < 64"
  shows "(r + 128) AND 0x3F = r"
proof -
  have "(r + 128) mod 64 = r" using assms by (rule mod_plus_multiple) simp
  then show ?thesis by (simp add: and_3F)
qed

lemma one_byte:
  assumes "c < 0x80"
  shows "utf8Slice (encodeCodePoint c @ rest) = c # utf8Slice rest"
  using assms by (simp add: encodeCodePoint_def bytesPerSequence_def decodeSequence_def)

lemma two_bytes:
  assumes "0x80 \<le> c" and "c < 0x800"
  shows "utf8Slice (encodeCodePoint c @ rest) = c # utf8Slice rest"
proof -
  let ?b1 = "c div 64 + 192" and ?b2 = "c mod 64 + 128"
  have "c div 64 < 2 ^ 5" using assms by simp
  then have "c div 64 OR 192 = c div 64 + 192"
    by (rule or_plus(1)) simp
  then have b1: "drop_bit 6 c OR 0xC0 = ?b1" by (simp add: drop_bit_eq_div)
  have enc: "encodeCodePoint c = [?b1, ?b2]"
    using assms by (simp add: encodeCodePoint_def b1 tail_byte)
  have n: "bytesPerSequence ?b1 = 2" using assms by (simp add: bytesPerSequence_def)
  have cont: "isContinuation ?b2" by (rule isContinuation_tail) simp
  have p1: "?b1 AND 0x1F = c div 64"
  proof -
    have "c div 64 < 32" using assms by simp
    then have "(c div 64 + 192) mod 32 = c div 64" by (rule mod_plus_multiple) simp
    then show ?thesis by (simp add: and_1F)
  qed
  have p2: "?b2 AND 0x3F = c mod 64" by (rule tail_payload) simp
  have "push_bit 6 (c div 64) OR (c mod 64) = c div 64 * 2 ^ 6 + c mod 64"
    by (rule or_add) simp
  then have t: "push_bit 6 (?b1 AND 0x1F) OR (?b2 AND 0x3F) = c"
    by (simp only: p1 p2) simp
  have "decodeSequence 2 ?b1 (?b2 # rest) = Some c"
    using assms cont by (simp add: decodeSequence_def Let_def t del: push_bit_and)
  then show ?thesis using assms by (simp add: enc n)
qed


lemma digits3:
  fixes c :: nat
  shows "c div 4096 * 4096 + (c div 64 mod 64 * 64 + c mod 64) = c"
  using mod_mult2_eq [of c 64 64] div_mult_mod_eq [of c 4096] by simp

lemma digits4:
  fixes c :: nat
  shows "c div 262144 * 262144 + (c div 4096 mod 64 * 4096 + (c div 64 mod 64 * 64 + c mod 64)) = c"
  using mod_mult2_eq [of c 64 64] mod_mult2_eq [of c 4096 64] div_mult_mod_eq [of c 262144]
  by simp

lemma join3:
  fixes x y z :: nat
  assumes "y < 64" and "z < 64"
  shows "push_bit 12 x OR push_bit 6 y OR z = x * 4096 + (y * 64 + z)"
proof -
  have yz: "push_bit 6 y OR z = y * 2 ^ 6 + z" using assms(2) by (intro or_add) simp
  have "y * 64 + z < 2 ^ 12" using assms by simp
  then have "push_bit 12 x OR (y * 64 + z) = x * 2 ^ 12 + (y * 64 + z)" by (rule or_add)
  then show ?thesis using yz by simp
qed

lemma join4:
  fixes w x y z :: nat
  assumes "x < 64" and "y < 64" and "z < 64"
  shows "push_bit 18 w OR push_bit 12 x OR push_bit 6 y OR z
         = w * 262144 + (x * 4096 + (y * 64 + z))"
proof -
  have "x * 4096 + (y * 64 + z) < 2 ^ 18" using assms by simp
  then have "push_bit 18 w OR (x * 4096 + (y * 64 + z)) = w * 2 ^ 18 + (x * 4096 + (y * 64 + z))"
    by (rule or_add)
  then show ?thesis using join3 [OF assms(2,3), of x] by simp
qed

lemma three_bytes:
  assumes "0x800 \<le> c" and "c < 0x10000" and "c < 0xD800 \<or> 0xDFFF < c"
  shows "utf8Slice (encodeCodePoint c @ rest) = c # utf8Slice rest"
proof -
  define b1 where "b1 = c div 4096 + 224"
  define b2 where "b2 = c div 64 mod 64 + 128"
  define b3 where "b3 = c mod 64 + 128"
  have small: "c div 4096 < 16" using assms by simp
  then have "c div 4096 < 2 ^ 4" by simp
  then have "c div 4096 OR 224 = c div 4096 + 224" by (rule or_plus(1)) simp
  then have first: "drop_bit 12 c OR 0xE0 = b1" by (simp add: drop_bit_eq_div b1_def)
  have second: "(drop_bit 6 c AND 0x3F) OR 0x80 = b2"
    by (simp only: tail_byte) (simp add: drop_bit_eq_div b2_def)
  have third: "(c AND 0x3F) OR 0x80 = b3" by (simp only: tail_byte b3_def)
  have enc: "encodeCodePoint c = [b1, b2, b3]"
    using assms(1,2) by (simp only: encodeCodePoint_def first second third) simp
  have n: "bytesPerSequence b1 = 3" using small by (simp add: bytesPerSequence_def b1_def)
  have c2: "isContinuation b2" unfolding b2_def by (rule isContinuation_tail) simp
  have c3: "isContinuation b3" unfolding b3_def by (rule isContinuation_tail) simp
  have p1: "b1 AND 0xF = c div 4096"
  proof -
    have "(c div 4096 + 224) mod 16 = c div 4096" using small by (rule mod_plus_multiple) simp
    then show ?thesis by (simp add: and_0F b1_def)
  qed
  have p2: "b2 AND 0x3F = c div 64 mod 64" unfolding b2_def by (rule tail_payload) simp
  have p3: "b3 AND 0x3F = c mod 64" unfolding b3_def by (rule tail_payload) simp
  have t: "push_bit 12 (b1 AND 0xF) OR push_bit 6 (b2 AND 0x3F) OR (b3 AND 0x3F) = c"
    by (simp only: p1 p2 p3) (simp add: join3 digits3)
  have "decodeSequence 3 b1 (b2 # b3 # rest) = Some c"
    using assms c2 c3 by (simp add: decodeSequence_def Let_def t del: push_bit_and)
  then show ?thesis using assms by (simp add: enc n)
qed

lemma four_bytes:
  assumes "0x10000 \<le> c" and "c < 0x110000"
  shows "utf8Slice (encodeCodePoint c @ rest)
         = [(c - 0x10000) div 1024 + 0xD800, (c - 0x10000) mod 1024 + 0xDC00] @ utf8Slice rest"
proof -
  define b1 where "b1 = c div 262144 + 240"
  define b2 where "b2 = c div 4096 mod 64 + 128"
  define b3 where "b3 = c div 64 mod 64 + 128"
  define b4 where "b4 = c mod 64 + 128"
  have small: "c div 262144 < 16" using assms by simp
  then have "c div 262144 < 2 ^ 4" by simp
  then have "c div 262144 OR 240 = c div 262144 + 240" by (rule or_plus(1)) simp
  then have first: "drop_bit 18 c OR 0xF0 = b1" by (simp add: drop_bit_eq_div b1_def)
  have second: "(drop_bit 12 c AND 0x3F) OR 0x80 = b2"
    by (simp only: tail_byte) (simp add: drop_bit_eq_div b2_def)
  have third: "(drop_bit 6 c AND 0x3F) OR 0x80 = b3"
    by (simp only: tail_byte) (simp add: drop_bit_eq_div b3_def)
  have fourth: "(c AND 0x3F) OR 0x80 = b4" by (simp only: tail_byte b4_def)
  have enc: "encodeCodePoint c = [b1, b2, b3, b4]"
    using assms by (simp only: encodeCodePoint_def first second third fourth) simp
  have n: "bytesPerSequence b1 = 4" by (simp add: bytesPerSequence_def b1_def)
  have c2: "isContinuation b2" unfolding b2_def by (rule isContinuation_tail) simp
  have c3: "isContinuation b3" unfolding b3_def by (rule isContinuation_tail) simp
  have c4: "isContinuation b4" unfolding b4_def by (rule isContinuation_tail) simp
  have p1: "b1 AND 0xF = c div 262144"
  proof -
    have "(c div 262144 + 240) mod 16 = c div 262144"
      using small by (rule mod_plus_multiple) simp
    then show ?thesis by (simp add: and_0F b1_def)
  qed
  have p2: "b2 AND 0x3F = c div 4096 mod 64" unfolding b2_def by (rule tail_payload) simp
  have p3: "b3 AND 0x3F = c div 64 mod 64" unfolding b3_def by (rule tail_payload) simp
  have p4: "b4 AND 0x3F = c mod 64" unfolding b4_def by (rule tail_payload) simp
  have t: "push_bit 18 (b1 AND 0xF) OR push_bit 12 (b2 AND 0x3F)
           OR push_bit 6 (b3 AND 0x3F) OR (b4 AND 0x3F) = c"
    by (simp only: p1 p2 p3 p4) (simp add: join4 digits4)
  have dec: "decodeSequence 4 b1 (b2 # b3 # b4 # rest) = Some c"
    using assms c2 c3 c4 by (simp add: decodeSequence_def Let_def t del: push_bit_and)
  have hi_small: "(c - 0x10000) div 1024 < 1024" using assms by simp
  then have "(c - 0x10000) div 1024 < 2 ^ 10" by simp
  then have "(c - 0x10000) div 1024 OR 0xD800 = (c - 0x10000) div 1024 + 0xD800"
    by (rule or_plus(1)) simp
  then have hi: "(drop_bit 10 (c - 0x10000) AND 0x3FF) OR 0xD800
                 = (c - 0x10000) div 1024 + 0xD800"
    using hi_small by (simp add: and_3FF drop_bit_eq_div)
  have "(c - 0x10000) mod 1024 < 2 ^ 10" by simp
  then have "0xDC00 OR (c - 0x10000) mod 1024 = 0xDC00 + (c - 0x10000) mod 1024"
    by (rule or_plus(2)) simp
  then have lo: "0xDC00 OR ((c - 0x10000) AND 0x3FF) = (c - 0x10000) mod 1024 + 0xDC00"
    by (simp add: and_3FF)
  have "utf8Slice (b1 # b2 # b3 # b4 # rest)
        = [(drop_bit 10 (c - 0x10000) AND 0x3FF) OR 0xD800,
           0xDC00 OR ((c - 0x10000) AND 0x3FF)] @ utf8Slice rest"
    using assms(1) dec by (simp add: n del: push_bit_and)
  then show ?thesis by (simp only: enc hi lo) simp
qed

subsection \<open>Decoding the bytes of one code point\<close>

lemma scalar_unit:
  assumes "isScalarUnit c"
  shows "utf8Slice (encodeCodePoint c @ rest) = c # utf8Slice rest"
proof -
  consider "c < 0x80" | "0x80 \<le> c" "c < 0x800" | "0x800 \<le> c"
    by linarith
  then show ?thesis
  proof cases
    case 1 then show ?thesis by (rule one_byte)
  next
    case 2 then show ?thesis by (rule two_bytes)
  next
    case 3 then show ?thesis using assms by (intro three_bytes) (auto simp add: isScalarUnit_def)
  qed
qed

lemma pair_code_point:
  fixes l d :: nat
  assumes "d - 0xDC00 < 1024"
  shows "(push_bit 10 (l - 0xD800) OR (d - 0xDC00)) + 0x10000
         = (l - 0xD800) * 1024 + (d - 0xDC00) + 0x10000"
proof -
  have "d - 0xDC00 < 2 ^ 10" using assms by simp
  then have "push_bit 10 (l - 0xD800) OR (d - 0xDC00) = (l - 0xD800) * 2 ^ 10 + (d - 0xDC00)"
    by (rule or_add)
  then show ?thesis by simp
qed

lemma surrogate_pair:
  assumes "isLeadSurrogate l" and "isTrailSurrogate d"
  shows "utf8Slice (encodeCodePoint ((push_bit 10 (l - 0xD800) OR (d - 0xDC00)) + 0x10000) @ rest)
         = l # d # utf8Slice rest"
proof -
  define h where "h = l - 0xD800"
  define t where "t = d - 0xDC00"
  have h: "h < 1024" "l = h + 0xD800" using assms(1) unfolding h_def isLeadSurrogate_def by linarith+
  have t: "t < 1024" "d = t + 0xDC00" using assms(2) unfolding t_def isTrailSurrogate_def by linarith+
  define c where "c = h * 1024 + t + 0x10000"
  have cp: "(push_bit 10 (l - 0xD800) OR (d - 0xDC00)) + 0x10000 = c"
    using pair_code_point [of d l] t(1) by (simp add: c_def h_def t_def)
  have range: "0x10000 \<le> c" "c < 0x110000" using h(1) t(1) by (simp_all add: c_def)
  have sub: "c - 0x10000 = t + h * 1024" by (simp add: c_def)
  have "(c - 0x10000) div 1024 = h" using t(1) by (simp add: sub)
  moreover have "(c - 0x10000) mod 1024 = t" using t(1) by (simp add: sub)
  ultimately have "utf8Slice (encodeCodePoint c @ rest)
                   = (h + 0xD800) # (t + 0xDC00) # utf8Slice rest"
    using four_bytes [OF range, of rest] by simp
  then have "utf8Slice (encodeCodePoint c @ rest) = l # d # utf8Slice rest"
    by (simp only: h(2) t(2))
  then show ?thesis by (simp only: cp)
qed

lemma utf8ToBytes_lead_pair:
  assumes "isLeadSurrogate c" and "isTrailSurrogate d"
  shows "utf8ToBytes None (c # d # ds)
         = encodeCodePoint ((push_bit 10 (c - 0xD800) OR (d - 0xDC00)) + 0x10000)
           @ utf8ToBytes None ds"
  using assms by (simp add: isLeadSurrogate_def isTrailSurrogate_def)

lemma utf8ToBytes_scalar:
  assumes "isScalarUnit c"
  shows "utf8ToBytes None (c # cs) = encodeCodePoint c @ utf8ToBytes None cs"
  using assms by (auto simp add: isScalarUnit_def)

lemma utf8_roundtrip:
  "wellFormedUtf16 s \<Longrightarrow> utf8Slice (utf8ToBytes None s) = s"
proof (induction s rule: wellFormedUtf16.induct)
  case 1
  then show ?case by simp
next
  case (2 c)
  then show ?case
    using scalar_unit [of c "[]"] by (simp only: utf8ToBytes_scalar wellFormedUtf16.simps) simp
next
  case (3 c d ds)
  show ?case
  proof (cases "isLeadSurrogate c")
    case True
    with 3 have "isTrailSurrogate d" and "utf8Slice (utf8ToBytes None ds) = ds" by simp_all
    then show ?thesis
      using True by (simp only: utf8ToBytes_lead_pair surrogate_pair)
  next
    case False
    with 3 have "isScalarUnit c" and "utf8Slice (utf8ToBytes None (d # ds)) = d # ds" by simp_all
    then show ?thesis by (simp only: utf8ToBytes_scalar scalar_unit)
  qed
qed


lemma wellFormed_cons_scalar:
  assumes "isScalarUnit c" and "wellFormedUtf16 w"
  shows "wellFormedUtf16 (c # w)"
proof -
  have "\<not> isLeadSurrogate c"
    using assms(1) by (auto simp add: isScalarUnit_def isLeadSurrogate_def)
  then show ?thesis using assms by (cases w) simp_all
qed

lemma wellFormed_cons_pair:
  assumes "isLeadSurrogate h" and "isTrailSurrogate l" and "wellFormedUtf16 w"
  shows "wellFormedUtf16 (h # l # w)"
  using assms by simp

lemma decoded_code_point:
  assumes "\<not> (0xD7FF < c \<and> c < 0xE000)" and "wellFormedUtf16 (utf8Slice rest)"
  shows "wellFormedUtf16 (utf8Slice (encodeCodePoint c @ rest))"
proof -
  consider "isScalarUnit c" | "0x10000 \<le> c" "c < 0x110000" | "0x110000 \<le> c"
    using assms(1) unfolding isScalarUnit_def by linarith
  then show ?thesis
  proof cases
    case 1
    then show ?thesis using assms(2) by (simp only: scalar_unit wellFormed_cons_scalar)
  next
    case 2
    define h where "h = (c - 0x10000) div 1024 + 0xD800"
    define l where "l = (c - 0x10000) mod 1024 + 0xDC00"
    have "(c - 0x10000) div 1024 < 1024" using 2 by simp
    then have "isLeadSurrogate h" by (simp add: h_def isLeadSurrogate_def)
    moreover have "isTrailSurrogate l" by (simp add: l_def isTrailSurrogate_def)
    moreover have "utf8Slice (encodeCodePoint c @ rest) = h # l # utf8Slice rest"
      using four_bytes [OF 2, of rest] by (simp add: h_def l_def)
    ultimately show ?thesis using assms(2) by (simp only: wellFormed_cons_pair)
  next
    case 3
    then have "encodeCodePoint c = []" by (simp add: encodeCodePoint_def)
    then show ?thesis using assms(2) by simp
  qed
qed

lemma replacement_code_point: "replacement = encodeCodePoint 0xFFFD"
  by (simp add: replacement_def encodeCodePoint_def drop_bit_eq_div and_3F
        or_plus(1) [where n = 4 and a = 15 and k = 224]
        or_plus(1) [where n = 7 and a = 63 and k = 128]
        or_plus(1) [where n = 7 and a = 61 and k = 128])

lemma decoded_replacement:
  assumes "wellFormedUtf16 (utf8Slice rest)"
  shows "wellFormedUtf16 (utf8Slice (replacement @ rest))"
  using decoded_code_point [of "0xFFFD" rest] assms by (simp add: replacement_code_point)

lemma decoded_wellFormed: "wellFormedUtf16 (utf8Slice (utf8ToBytes lead s))"
proof (induction lead s rule: utf8ToBytes.induct)
  case (1 leadSurrogate)
  then show ?case by simp
next
  case (2 leadSurrogate c cs)
  show ?case
  proof (cases "0xD7FF < c \<and> c < 0xE000")
    case surrogate: True
    show ?thesis
    proof (cases leadSurrogate)
      case None
      have "wellFormedUtf16 (utf8Slice replacement)"
        using decoded_replacement [of "[]"] by simp
      then show ?thesis
        using surrogate None 2 by (auto simp add: decoded_replacement)
    next
      case (Some l)
      show ?thesis
      proof (cases "c < 0xDC00")
        case True
        then show ?thesis using surrogate Some 2 by (simp add: decoded_replacement)
      next
        case False
        have "wellFormedUtf16 (utf8Slice (utf8ToBytes None cs))"
          using surrogate Some False 2 by simp
        then have "wellFormedUtf16 (utf8Slice (encodeCodePoint
                     ((push_bit 10 (l - 0xD800) OR (c - 0xDC00)) + 0x10000)
                     @ utf8ToBytes None cs))"
          by (intro decoded_code_point) simp_all
        then show ?thesis using surrogate Some False by simp
      qed
    qed
  next
    case False
    then have rest: "wellFormedUtf16 (utf8Slice (utf8ToBytes None cs))" using 2 by simp
    have unfold: "utf8ToBytes leadSurrogate (c # cs)
                  = (case leadSurrogate of None \<Rightarrow> [] | Some l \<Rightarrow> replacement)
                    @ encodeCodePoint c @ utf8ToBytes None cs"
      using False by auto
    have "wellFormedUtf16 (utf8Slice (encodeCodePoint c @ utf8ToBytes None cs))"
      using False rest by (rule decoded_code_point)
    then show ?thesis
      unfolding unfold by (cases leadSurrogate) (simp_all add: decoded_replacement)
  qed
qed

lemma utf8_roundtrip_iff:
  "utf8Slice (utf8ToBytes None s) = s \<longleftrightarrow> wellFormedUtf16 s"
  using utf8_roundtrip [of s] decoded_wellFormed [of None s] by auto

subsection \<open>Representable values\<close>

text \<open>
  The representable values are exactly the non-empty values that decoding their own bytes
  under the key's encoding gives back.
\<close>

lemma representable_iff:
  "representable k s =
     (s \<noteq> [] \<and>
      (case spec_get k of
         OwnEncoding enc \<Rightarrow> Buffer_toString enc (Buffer_from s (spec_get k)) = s
       | _ \<Rightarrow> False))"
proof (cases "spec_get k")
  case (OwnEncoding enc)
  then show ?thesis
    by (cases enc)
       (auto simp add: representable_def preserved_def Buffer_from_def Buffer_toString_def
          utf8_roundtrip_iff ascii_roundtrip_iff)
qed (simp_all add: representable_def)

text \<open>
  A non-empty string of ASCII characters survives the encoding of every recognized key.
\<close>

lemma ascii_representable:
  assumes "k \<in> set recognizedKeys" and "s \<noteq> []" and "list_all (\<lambda>c. c < 128) s"
  shows "representable k s"
proof -
  from assms(1) obtain enc where enc: "spec_get k = OwnEncoding enc"
    using recognized_own by blast
  show ?thesis
  proof (cases enc)
    case Utf8
    then show ?thesis
      using assms(2, 3)
      by (simp add: representable_iff enc Buffer_from_def Buffer_toString_def
            ascii_utf8ToBytes ascii_utf8Slice)
  next
    case Ascii
    then show ?thesis
      using assms(2, 3)
      by (simp add: representable_iff enc Buffer_from_def Buffer_toString_def
            ascii_asciiToBytes ascii_asciiSlice)
  qed
qed

text \<open>Under the \<open>ascii\<close> encoding nothing else survives.\<close>

lemma ascii_only_representable:
  assumes "representable (str ''image'') s"
  shows "list_all (\<lambda>c. c < 128) s"
proof -
  have sg: "spec_get (str ''image'') = OwnEncoding Ascii"
    by (simp add: spec_get_def jettonOnChainMetadataSpec_def str_def)
  have low: "(b::nat) AND 0x7F < 128" for b
  proof -
    have "(0x7F::nat) = mask 7" by (simp add: mask_eq_exp_minus_1)
    then have "b AND 0x7F = take_bit 7 b" by (simp only: take_bit_eq_mask)
    moreover have "take_bit 7 b < 2 ^ 7" by (rule take_bit_nat_less_exp)
    ultimately show ?thesis by simp
  qed
  from assms have "asciiSlice (asciiToBytes s) = s"
    by (simp add: representable_iff sg Buffer_from_def Buffer_toString_def)
  moreover have "list_all (\<lambda>c. c < 128) (asciiSlice buf)" for buf
    by (simp add: asciiSlice_def list_all_iff low)
  ultimately show ?thesis by metis
qed

section \<open>The round trip\<close>

lemma representable_decoded:
  assumes "validMetadata m" and "allRepresentable m"
  shows "decodedMapping m = asMapping m"
proof (rule ext)
  fix k
  show "decodedMapping m k = asMapping m k"
  proof (cases "asMapping m k")
    case None
    then show ?thesis
      by (simp add: decodedMapping_def decodedValue_def split: option.split)
  next
    case (Some s)
    then have mem: "(k, Some s) \<in> set m"
      by (auto simp add: asMapping_def dest: map_of_SomeD split: option.splits)
    with assms(2) have rep: "representable k s"
      by (auto simp add: allRepresentable_def list_all_iff)
    from mem assms(1) have "k \<in> set recognizedKeys"
      by (auto simp add: validMetadata_def list_all_iff)
    then obtain enc where sg: "spec_get k = OwnEncoding enc"
      using recognized_own by blast
    then have enc: "map_of jettonOnChainMetadataSpec k = Some enc"
      by (auto simp add: spec_get_def split: option.splits if_splits)
    from sg rep have "s \<noteq> []" "Buffer_toString enc (Buffer_from s (OwnEncoding enc)) = s"
      by (simp_all add: representable_iff)
    then show ?thesis by (simp add: decodedMapping_def decodedValue_def enc Some)
  qed
qed

text \<open>
  C1 (as amended). For every valid metadata mapping within the per-entry bound (each
  defined value fits its value cell and the serialiser accepts the dictionary) that
  defines at least one value and whose defined values are not empty, are well-formed
  UTF-16 under \<open>name\<close>, \<open>description\<close> and \<open>symbol\<close>, and hold only code units
  below 128 under \<open>image\<close>, and for every digest that tells the four recognized names
  apart, encoding succeeds, decoding the result succeeds, and the decoded object is the
  same mapping as the input.
\<close>

theorem decode_encode_roundtrip:
  assumes "validMetadata m" and "serializable sha fits m" and "allRepresentable m"
    and "inj_on sha (set recognizedKeys)" and "definesValue m"
  shows "\<exists>c res. buildOnChainData sha fits m = Inr c \<and> parseOnChainData sha c = Inr res
           \<and> map_of res = asMapping m \<and> distinct (map fst res)"
  using validMetadata_builds [OF assms(1, 4, 2)] validMetadata_roundtrip [OF assms(1, 4, 5)]
    representable_decoded [OF assms(1, 3)]
  by auto

text \<open>The round trip on the metadata of the scenario, name Test and symbol TST.\<close>

theorem decode_encode_roundtrip_witness:
  "validMetadata exampleMetadata \<and> serializable lengthDigest fitsLeaf exampleMetadata
   \<and> allRepresentable exampleMetadata \<and> inj_on lengthDigest (set recognizedKeys)
   \<and> definesValue exampleMetadata
   \<and> (\<exists>c res. buildOnChainData lengthDigest fitsLeaf exampleMetadata = Inr c
         \<and> parseOnChainData lengthDigest c = Inr res
         \<and> map_of res = asMapping exampleMetadata \<and> distinct (map fst res))"
  using exampleMetadata_valid exampleMetadata_serializable [of lengthDigest]
    exampleMetadata_representable lengthDigest_inj exampleMetadata_defined
    decode_encode_roundtrip
      [OF exampleMetadata_valid exampleMetadata_serializable exampleMetadata_representable
          lengthDigest_inj exampleMetadata_defined]
  by simp

text \<open>
  C1 as stated fails. A name that is the empty string is within the length bound, and
  decoding its encoding gives an object without a name. An image that holds the code unit
  U+00E9 is within the bound, and decoding its encoding gives the image \<open>i\<close>, U+0069. A
  name that is the lone surrogate U+D800 is within the bound, and decoding its encoding
  gives the name U+FFFD. The empty mapping is valid, its content cell has no reference to
  a dictionary, and decoding that cell throws.
\<close>

theorem decode_encode_counterexample:
  "validMetadata emptyNameMetadata \<and> serializable lengthDigest fitsLeaf emptyNameMetadata
   \<and> bindE (buildOnChainData lengthDigest fitsLeaf emptyNameMetadata) (parseOnChainData lengthDigest)
       = Inr []
   \<and> asMapping emptyNameMetadata (str ''name'') = Some []
   \<and> validMetadata accentedImageMetadata
   \<and> serializable lengthDigest fitsLeaf accentedImageMetadata
   \<and> bindE (buildOnChainData lengthDigest fitsLeaf accentedImageMetadata)
         (parseOnChainData lengthDigest) = Inr [(str ''image'', [0x69])]
   \<and> asMapping accentedImageMetadata (str ''image'') = Some [0xE9]
   \<and> validMetadata loneSurrogateMetadata
   \<and> serializable lengthDigest fitsLeaf loneSurrogateMetadata
   \<and> bindE (buildOnChainData lengthDigest fitsLeaf loneSurrogateMetadata)
         (parseOnChainData lengthDigest) = Inr [(str ''name'', [0xFFFD])]
   \<and> asMapping loneSurrogateMetadata (str ''name'') = Some [0xD800]
   \<and> validMetadata [] \<and> serializable lengthDigest fitsLeaf []
   \<and> bindE (buildOnChainData lengthDigest fitsLeaf []) (parseOnChainData lengthDigest)
       = Inl LibraryError"
proof -
  have "validMetadata []" by (simp add: validMetadata_def)
  moreover have "serializable lengthDigest fitsLeaf []" by (simp add: serializable_def)
  moreover have "bindE (buildOnChainData lengthDigest fitsLeaf []) (parseOnChainData lengthDigest)
       = Inl LibraryError"
    by (simp add: empty_mapping_built parse_empty_contentCell)
  moreover
  have "asMapping emptyNameMetadata (str ''name'') = Some []"
    by (simp add: emptyNameMetadata_def asMapping_def)
  moreover have "asMapping accentedImageMetadata (str ''image'') = Some [0xE9]"
    by (simp add: accentedImageMetadata_def asMapping_def)
  moreover have "asMapping loneSurrogateMetadata (str ''name'') = Some [0xD800]"
    by (simp add: loneSurrogateMetadata_def asMapping_def)
  ultimately show ?thesis
    using emptyNameMetadata_valid emptyName_decoded accentedImageMetadata_valid
      accentedImage_decoded emptyNameMetadata_serializable [of lengthDigest]
      accentedImageMetadata_serializable [of lengthDigest]
      loneSurrogateMetadata_valid loneSurrogate_decoded
      loneSurrogateMetadata_serializable [of lengthDigest]
    by simp
qed

section \<open>Empty and absent values\<close>

lemma Buffer_from_empty: "Buffer_from [] enc = []"
  by (simp add: Buffer_from_def asciiToBytes_def split: spec_value.split encoding.split)

lemma Buffer_toString_empty: "Buffer_toString enc [] = []"
  by (simp add: Buffer_toString_def asciiSlice_def split: encoding.split)

lemma absent_in_result:
  "map_of res k = None \<Longrightarrow> k \<notin> fst ` set res"
  by (simp add: map_of_eq_None_iff)

lemma parse_dictionary_cell:
  assumes "extractAll extractValue entries = Inr dict"
  shows "parseOnChainData sha
           (Cell (uint_bits 8 ONCHAIN_CONTENT_PREFIX @ bits) (DictCell entries # refs))
         = Inr (foldl (\<lambda>res ke. collectKey sha dict ke res) [] jettonOnChainMetadataSpec)"
  using assms
  by (simp add: parseOnChainData_def beginParse_def readUint_marker readDict_def)

text \<open>
  C9. When the dictionary of a content cell has, under the digest of a recognized key, an
  entry that decodes to the empty string, \<open>parseOnChainData\<close> returns an object without
  that key. In particular, when a valid mapping within the per-entry bound gives a
  recognized key the empty string, decoding its encoding returns an object without that
  key.
\<close>

theorem parse_omits_empty_string:
  "(extractAll extractValue entries = Inr dict
      \<and> (k, enc) \<in> set jettonOnChainMetadataSpec
      \<and> map_of dict (sha k) = Some buf \<and> Buffer_toString enc buf = []
    \<longrightarrow> (\<exists>res. parseOnChainData sha
           (Cell (uint_bits 8 ONCHAIN_CONTENT_PREFIX @ True # bits) (DictCell entries # refs))
           = Inr res \<and> k \<notin> fst ` set res))
   \<and> (validMetadata m \<and> serializable sha fits m \<and> inj_on sha (set recognizedKeys)
      \<and> (k', Some []) \<in> set m
    \<longrightarrow> (\<exists>c res. buildOnChainData sha fits m = Inr c \<and> parseOnChainData sha c = Inr res
           \<and> k' \<notin> fst ` set res))"
proof (intro conjI impI; (elim conjE)?)
  assume ex: "extractAll extractValue entries = Inr dict"
    and enc: "(k, enc) \<in> set jettonOnChainMetadataSpec"
    and found: "map_of dict (sha k) = Some buf" and empty: "Buffer_toString enc buf = []"
  let ?res = "foldl (\<lambda>res ke. collectKey sha dict ke res) [] jettonOnChainMetadataSpec"
  have "map_of jettonOnChainMetadataSpec k = Some enc"
    using enc spec_keys_distinct by simp
  then have "map_of ?res k = None"
    using found empty by (simp add: collected_lookup decodedValue_def)
  then have "k \<notin> fst ` set ?res" by (rule absent_in_result)
  then show "\<exists>res. parseOnChainData sha
           (Cell (uint_bits 8 ONCHAIN_CONTENT_PREFIX @ True # bits) (DictCell entries # refs))
           = Inr res \<and> k \<notin> fst ` set res"
    using parse_dictionary_cell [OF ex] by simp
next
  assume valid: "validMetadata m" and ser: "serializable sha fits m"
    and inj: "inj_on sha (set recognizedKeys)" and mem: "(k', Some []) \<in> set m"
  from mem have "definesValue m" by (force simp add: definesValue_def list_ex_iff)
  from validMetadata_roundtrip [OF valid inj this] obtain res
    where res: "parseOnChainData sha (contentCell (entryCells sha m)) = Inr res"
      "map_of res = decodedMapping m" by blast
  have "distinct (map fst m)" using valid by (simp add: validMetadata_def)
  with mem have "asMapping m k' = Some []" by (simp add: asMapping_def)
  then have "decodedMapping m k' = None"
    by (simp add: decodedMapping_def decodedValue_def Buffer_from_empty
          Buffer_toString_empty split: option.split)
  then have "k' \<notin> fst ` set res" using res(2) absent_in_result [of res k'] by simp
  then show "\<exists>c res. buildOnChainData sha fits m = Inr c \<and> parseOnChainData sha c = Inr res
           \<and> k' \<notin> fst ` set res"
    using validMetadata_builds [OF valid inj ser] res(1) by auto
qed


text \<open>
  Both parts at the name with the empty value: the cell with that one entry, and the
  mapping that gives the name the empty string.
\<close>

theorem parse_omits_empty_string_witness:
  "extractAll extractValue [(4, valueCell [])] = Inr [(4, [])]
   \<and> (str ''name'', Utf8) \<in> set jettonOnChainMetadataSpec
   \<and> map_of [(4, [])] (lengthDigest (str ''name'')) = Some []
   \<and> Buffer_toString Utf8 [] = []
   \<and> (\<exists>res. parseOnChainData lengthDigest
          (Cell (uint_bits 8 ONCHAIN_CONTENT_PREFIX @ [True]) [DictCell [(4, valueCell [])]])
          = Inr res \<and> str ''name'' \<notin> fst ` set res)
   \<and> validMetadata emptyNameMetadata \<and> serializable lengthDigest fitsLeaf emptyNameMetadata
   \<and> inj_on lengthDigest (set recognizedKeys)
   \<and> (str ''name'', Some []) \<in> set emptyNameMetadata
   \<and> (\<exists>c res. buildOnChainData lengthDigest fitsLeaf emptyNameMetadata = Inr c
         \<and> parseOnChainData lengthDigest c = Inr res \<and> str ''name'' \<notin> fst ` set res)"
proof -
  have 1: "extractAll extractValue [(4, valueCell [])] = Inr [(4, [])]"
    by (simp add: extractValue_valueCell)
  have 2: "(str ''name'', Utf8) \<in> set jettonOnChainMetadataSpec"
    by (simp add: jettonOnChainMetadataSpec_def)
  have 3: "map_of [(4, [])] (lengthDigest (str ''name'')) = Some []"
    by (simp add: lengthDigest_def str_def)
  have 4: "Buffer_toString Utf8 [] = []" by (rule Buffer_toString_empty)
  have 5: "(str ''name'', Some []) \<in> set emptyNameMetadata"
    by (simp add: emptyNameMetadata_def)
  note inst = parse_omits_empty_string
        [where entries = "[(4, valueCell [])]" and dict = "[(4, [])]" and k = "str ''name''"
           and enc = Utf8 and sha = lengthDigest and buf = "[]" and bits = "[]"
           and refs = "[]" and m = emptyNameMetadata and k' = "str ''name''"
           and fits = fitsLeaf]
  note ser = emptyNameMetadata_serializable [of lengthDigest]
  have A: "\<exists>res. parseOnChainData lengthDigest
          (Cell (uint_bits 8 ONCHAIN_CONTENT_PREFIX @ [True]) [DictCell [(4, valueCell [])]])
          = Inr res \<and> str ''name'' \<notin> fst ` set res"
    using inst 1 2 3 4 by blast
  have B: "\<exists>c res. buildOnChainData lengthDigest fitsLeaf emptyNameMetadata = Inr c
         \<and> parseOnChainData lengthDigest c = Inr res \<and> str ''name'' \<notin> fst ` set res"
    using inst emptyNameMetadata_valid ser lengthDigest_inj 5 by blast
  from 1 2 3 4 A emptyNameMetadata_valid ser lengthDigest_inj 5 B show ?thesis by blast
qed

section \<open>Keys whose value is undefined\<close>

lemma forEach_skips_undefined:
  assumes "truthy (spec_get k)" and "\<And>v. (k, v) \<in> set m \<Longrightarrow> v = None"
  shows "forEach (storeEntry sha) (removeKey k m) d = forEach (storeEntry sha) m d"
  using assms(2)
proof (induction m arbitrary: d)
  case Nil
  then show ?case by (simp add: removeKey_def)
next
  case (Cons kv m)
  obtain k' v where kv: "kv = (k', v)" by (cases kv)
  have IH: "forEach (storeEntry sha) (removeKey k m) d' = forEach (storeEntry sha) m d'" for d'
    using Cons.prems by (intro Cons.IH) auto
  show ?case
  proof (cases "k' = k")
    case True
    with Cons.prems [of v] have "v = None" by (simp add: kv)
    then have "storeEntry sha kv d = Inr d"
      using True assms(1) by (simp add: kv storeEntry_eq)
    moreover have "removeKey k (kv # m) = removeKey k m"
      using True by (simp add: removeKey_def kv)
    ultimately show ?thesis by (simp add: IH)
  next
    case False
    then have "removeKey k (kv # m) = kv # removeKey k m"
      by (simp add: removeKey_def kv)
    then show ?thesis
      by (cases "storeEntry sha kv d") (simp_all add: IH)
  qed
qed

lemma buildOnChainData_skips_undefined:
  assumes "distinct (map fst m)" and "(k, None) \<in> set m" and "k \<in> set recognizedKeys"
  shows "buildOnChainData sha fits m = buildOnChainData sha fits (removeKey k m)"
proof -
  have "v = None" if "(k, v) \<in> set m" for v
    using that assms(1, 2) by (meson eq_key_imp_eq_value)
  with recognized_truthy [OF assms(3)]
  have "forEach (storeEntry sha) (removeKey k m) d = forEach (storeEntry sha) m d" for d
    by (intro forEach_skips_undefined)
  then show ?thesis by (simp add: buildOnChainData_def)
qed

lemma undefined_only_built:
  assumes "validMetadata m" and "\<not> definesValue m"
  shows "buildOnChainData sha fits m = Inr (contentCell [])"
proof -
  have "entryCells sha m = []" using assms(2) entryCells_defined [of sha m] by simp
  moreover from this have "serializable sha fits m" by (simp add: serializable_def)
  moreover have "encodable m" using assms(1) by (rule validMetadata_encodable)
  ultimately show ?thesis using buildOnChainData_Inr_iff [of sha fits m "contentCell []"]
    by simp
qed


lemma undefinedDescriptionMetadata_valid: "validMetadata undefinedDescriptionMetadata"
  by (simp add: undefinedDescriptionMetadata_def evaluate_metadata)

lemma undefinedDescriptionMetadata_serializable:
  "serializable sha fitsLeaf undefinedDescriptionMetadata"
  by (rule fitsLeaf_entryCells) (simp add: undefinedDescriptionMetadata_def evaluate_metadata)

lemma undefinedDescriptionMetadata_defined: "definesValue undefinedDescriptionMetadata"
  by (simp add: undefinedDescriptionMetadata_def definesValue_def)

lemma undefinedOnlyMetadata_valid: "validMetadata undefinedOnlyMetadata"
  by (simp add: undefinedOnlyMetadata_def evaluate_metadata)

lemma undefinedOnlyMetadata_undefined: "\<not> definesValue undefinedOnlyMetadata"
  by (simp add: undefinedOnlyMetadata_def definesValue_def)



section \<open>Independence of the order of the keys\<close>

lemma mset_entryCells:
  "mset data' = mset data \<Longrightarrow> mset (entryCells sha data') = mset (entryCells sha data)"
proof -
  have eq: "mset (List.map_filter f xs)
            = image_mset (\<lambda>x. the (f x)) (filter_mset (\<lambda>x. f x \<noteq> None) (mset xs))"
    for f :: "'a \<Rightarrow> 'b option" and xs :: "'a list"
    by (simp add: map_filter_def comp_def)
  assume "mset data' = mset data"
  then show ?thesis by (simp add: entryCells_def eq)
qed

lemma encodable_permuted: "mset data' = mset data \<Longrightarrow> encodable data' = encodable data"
  using mset_eq_setD [of data' data] by (simp add: encodable_def list_all_iff)

lemma sort_key_permuted:
  assumes "mset items' = mset items" and "distinct (map fst items)"
  shows "sort_key fst items' = sort_key fst items"
proof -
  have "mset (map fst items') = mset (map fst items)" using assms(1) by simp
  then have "distinct (map fst items')"
    using assms(2) by (metis mset_eq_imp_distinct_iff)
  then have "inj_on fst (set items')" by (simp add: distinct_map)
  moreover have "mset items' = mset (sort_key fst items)" using assms(1) by simp
  moreover have "sorted (map fst (sort_key fst items))" by simp
  ultimately show ?thesis by (intro sort_key_inj_key_eq)
qed

lemma serializable_permuted:
  assumes "mset data' = mset data" and "distinct (map fst (entryCells sha data))"
    and "serializable sha fits data"
  shows "serializable sha fits data'"
proof -
  have perm: "mset (entryCells sha data') = mset (entryCells sha data)"
    using assms(1) by (rule mset_entryCells)
  then have "entryCells sha data' = [] \<longleftrightarrow> entryCells sha data = []"
    by (metis mset_zero_iff)
  then show ?thesis
    using assms(3) sort_key_permuted [OF perm assms(2)] by (simp add: serializable_def)
qed

lemma contentCell_permuted:
  assumes "mset items' = mset items" and "distinct (map fst items)"
  shows "contentCell items' = contentCell items"
proof -
  have "mset (map fst items') = mset (map fst items)" using assms(1) by simp
  then have "distinct (map fst items')"
    using assms(2) by (metis mset_eq_imp_distinct_iff)
  then have "inj_on fst (set items')" by (simp add: distinct_map)
  moreover have "mset items' = mset (sort_key fst items)" using assms(1) by simp
  moreover have "sorted (map fst (sort_key fst items))" by simp
  ultimately have "sort_key fst items' = sort_key fst items"
    by (intro sort_key_inj_key_eq)
  moreover have "items' = [] \<longleftrightarrow> items = []"
    using assms(1) by (metis mset_zero_iff)
  ultimately show ?thesis by (simp add: contentCell_def)
qed

text \<open>
  C7. \<open>buildOnChainData\<close> is a function of the digest and the entries, so two runs on
  the same input give the same cell; and the cell it returns does not depend on the order
  of the entries: an object with the same entries in another order is encoded to the same
  cell.
\<close>

theorem buildOnChainData_order_independent:
  assumes "mset data' = mset data" and "buildOnChainData sha fits data = Inr c"
  shows "buildOnChainData sha fits data' = Inr c"
proof -
  from assms(2) have enc: "encodable data"
    and dist: "distinct (map fst (entryCells sha data))"
    and ser: "serializable sha fits data"
    and c: "c = contentCell (entryCells sha data)"
    by (simp_all add: buildOnChainData_Inr_iff)
  have perm: "mset (entryCells sha data') = mset (entryCells sha data)"
    using assms(1) by (rule mset_entryCells)
  then have "mset (map fst (entryCells sha data')) = mset (map fst (entryCells sha data))"
    by simp
  then have "distinct (map fst (entryCells sha data'))"
    using dist by (metis mset_eq_imp_distinct_iff)
  moreover have "encodable data'" using enc encodable_permuted [OF assms(1)] by simp
  moreover have "contentCell (entryCells sha data') = c"
    using contentCell_permuted [OF perm dist] c by simp
  moreover have "serializable sha fits data'"
    using assms(1) dist ser by (rule serializable_permuted)
  ultimately show ?thesis by (simp add: buildOnChainData_Inr_iff)
qed

text \<open>The scenario's metadata, and the same entries with the symbol first.\<close>

theorem buildOnChainData_order_independent_witness:
  "mset (rev exampleMetadata) = mset exampleMetadata
   \<and> buildOnChainData lengthDigest fitsLeaf exampleMetadata
       = Inr (contentCell (entryCells lengthDigest exampleMetadata))
   \<and> buildOnChainData lengthDigest fitsLeaf (rev exampleMetadata)
       = Inr (contentCell (entryCells lengthDigest exampleMetadata))"
proof -
  have 1: "mset (rev exampleMetadata) = mset exampleMetadata" by simp
  have 2: "buildOnChainData lengthDigest fitsLeaf exampleMetadata
       = Inr (contentCell (entryCells lengthDigest exampleMetadata))"
    using exampleMetadata_valid lengthDigest_inj exampleMetadata_serializable
    by (rule validMetadata_builds)
  from 1 2 buildOnChainData_order_independent [OF 1 2] show ?thesis by simp
qed

section \<open>initData: layout and errors\<close>

text \<open>
  C5. For every well-formed owner address and every valid metadata mapping within the
  per-entry bound (and a digest that tells the recognized names apart),
  \<open>buildOnChainData\<close> returns a content cell and \<open>initData\<close> returns the cell whose
  bits are the zero coin amount followed by the owner address and whose references are,
  in this order, that content cell and the jetton wallet code cell.
\<close>

theorem initData_layout:
  assumes "wellFormedAddress owner" and "validMetadata data"
    and "serializable sha fits data" and "inj_on sha (set recognizedKeys)"
  shows "\<exists>content. buildOnChainData sha fits data = Inr content
           \<and> initData sha fits JETTON_WALLET_CODE owner data
               = Inr (Cell (coins_bits 0 @ address_bits (Some owner))
                        [content, JETTON_WALLET_CODE])"
  using validMetadata_builds [OF assms(2, 4, 3)]
  by (simp add: initData_of_content [OF assms(1)])

text \<open>The init data of the example owner and the scenario's metadata.\<close>

theorem initData_layout_witness:
  "wellFormedAddress exampleOwner \<and> validMetadata exampleMetadata
   \<and> serializable lengthDigest fitsLeaf exampleMetadata
   \<and> inj_on lengthDigest (set recognizedKeys)
   \<and> (\<exists>content. buildOnChainData lengthDigest fitsLeaf exampleMetadata = Inr content
         \<and> initData lengthDigest fitsLeaf (Cell [True] []) exampleOwner exampleMetadata
             = Inr (Cell (coins_bits 0 @ address_bits (Some exampleOwner))
                      [content, Cell [True] []]))"
  using exampleOwner_wf exampleMetadata_valid lengthDigest_inj
    exampleMetadata_serializable [of lengthDigest]
    initData_layout
      [OF exampleOwner_wf exampleMetadata_valid exampleMetadata_serializable lengthDigest_inj]
  by simp


lemma shortHashOwner_storable: "storableOwner shortHashOwner"
  by (simp add: shortHashOwner_def storableOwner_def list_all_iff)

lemma shortHashOwner_malformed: "\<not> wellFormedAddress shortHashOwner"
  by (simp add: shortHashOwner_def wellFormedAddress_def)


lemma exampleMetadata_built:
  "buildOnChainData lengthDigest fitsLeaf exampleMetadata
   = Inr (contentCell (entryCells lengthDigest exampleMetadata))"
  using exampleMetadata_valid lengthDigest_inj exampleMetadata_serializable
  by (rule validMetadata_builds)


section \<open>Keys outside the recognized set\<close>

text \<open>
  A key that is neither recognized nor inherited is rejected: at the head of the object
  with the unsupported-key error, and anywhere in it with some error. Conversely the
  unsupported-key error names a key of the object that the lookup does not find.
\<close>

lemma unsupported_first_key:
  "spec_get k = Undefined \<Longrightarrow>
   buildOnChainData sha fits ((k, v) # m) = Inl (UnsupportedKeyError k)"
  by (simp add: buildOnChainData_def storeEntry_eq truthy_def)

lemma unsupported_key_fails:
  assumes "(k, v) \<in> set m" and "spec_get k = Undefined"
  shows "\<exists>e. buildOnChainData sha fits m = Inl e"
proof (cases "buildOnChainData sha fits m")
  case (Inl e)
  then show ?thesis by simp
next
  case (Inr c)
  then have "encodable m" by (simp add: buildOnChainData_Inr_iff)
  with assms show ?thesis by (auto simp add: encodable_def list_all_iff truthy_def)
qed

lemma forEach_unsupported_key:
  "forEach (storeEntry sha) m d = Inl (UnsupportedKeyError k) \<Longrightarrow>
   k \<in> fst ` set m \<and> spec_get k = Undefined"
proof (induction m arbitrary: d)
  case Nil
  then show ?case by simp
next
  case (Cons kv m)
  obtain k' v where kv: "kv = (k', v)" by (cases kv)
  show ?case
  proof (cases "storeEntry sha (k', v) d")
    case (Inl e)
    then have "e = UnsupportedKeyError k" using Cons.prems by (simp add: kv)
    with Inl have "k' = k \<and> spec_get k = Undefined"
      by (auto simp add: storeEntry_eq truthy_def split: if_splits option.splits)
    then show ?thesis by (simp add: kv)
  next
    case (Inr d')
    then have "forEach (storeEntry sha) m d' = Inl (UnsupportedKeyError k)"
      using Cons.prems by (simp add: kv)
    then show ?thesis using Cons.IH by auto
  qed
qed

lemma unsupported_key_error_names_key:
  assumes "buildOnChainData sha fits m = Inl (UnsupportedKeyError k)"
  shows "k \<in> fst ` set m \<and> spec_get k = Undefined"
proof (cases "forEach (storeEntry sha) m []")
  case (Inl e)
  with assms have "e = UnsupportedKeyError k"
    by (simp add: buildOnChainData_def beginDict_def)
  with Inl show ?thesis by (auto dest: forEach_unsupported_key)
next
  case (Inr items)
  with assms show ?thesis
    by (simp add: buildOnChainData_def beginDict_def content_cell_built split: if_splits)
qed

lemma inherited_key_lookup: "spec_get (str ''constructor'') = InheritedMember"
  by (simp add: evaluate_metadata)

text \<open>
  C2, at the failing input. The key \<open>constructor\<close> is outside the recognized set, and
  \<open>buildOnChainData\<close> raises no error for it: with the value \<open>x\<close> it stores an entry
  under the digest of the key, with an undefined value it skips the key.
\<close>

theorem buildOnChainData_accepts_inherited_key:
  "str ''constructor'' \<notin> set recognizedKeys
   \<and> buildOnChainData lengthDigest fitsLeaf [(str ''constructor'', Some (str ''x''))]
       = Inr (contentCell [(11, valueCell [120])])
   \<and> buildOnChainData lengthDigest fitsLeaf [(str ''constructor'', None)] = Inr (contentCell [])"
proof -
  have 1: "str ''constructor'' \<notin> set recognizedKeys"
    by (simp add: recognizedKeys_eq str_def)
  have digest: "lengthDigest (str ''constructor'') = 11"
    by (simp add: lengthDigest_def str_def)
  have bytes: "Buffer_from (str ''x'') InheritedMember = [120]"
    by (simp add: evaluate_metadata)
  have fits: "withinBound (str ''constructor'') (str ''x'')"
    by (simp add: withinBound_def inherited_key_lookup bytes MAX_VALUE_BYTES_def)
  have ser: "serializable lengthDigest fitsLeaf [(str ''constructor'', Some (str ''x''))]"
    by (rule fitsLeaf_entryCells) (simp add: inherited_key_lookup bytes)
  have 2: "buildOnChainData lengthDigest fitsLeaf [(str ''constructor'', Some (str ''x''))]
       = Inr (contentCell [(11, valueCell [120])])"
    by (simp add: buildOnChainData_Inr_iff encodable_def inherited_key_lookup truthy_def
          fits digest bytes ser)
  have 3: "buildOnChainData lengthDigest fitsLeaf [(str ''constructor'', None)]
       = Inr (contentCell [])"
    by (simp add: buildOnChainData_Inr_iff encodable_def inherited_key_lookup truthy_def
          serializable_def)
  from 1 2 3 show ?thesis by simp
qed

section \<open>parseOnChainData: the tag errors\<close>

lemma extractValue_eq:
  "extractValue (Cell bits refs) =
     (if length bits < 8 then Inl LibraryError
      else if nat_of_bits (take 8 bits) \<noteq> SNAKE_PREFIX
        then Inl (MalformedContentError ''Only snake format is supported'')
      else if length bits mod 8 \<noteq> 0 then Inl LibraryError
      else Inr (bytes_of_bits (drop 8 bits)))"
proof -
  have "(length bits - 8) mod 8 = length bits mod 8" if "\<not> length bits < 8"
    using that by (simp add: le_mod_geq not_less)
  then show ?thesis
    by (simp add: extractValue_def beginParse_def readUint_def readRemainingBytes_def)
qed

lemma extractValue_DictCell: "extractValue (DictCell entries) = Inl LibraryError"
  by (simp add: extractValue_def beginParse_def)

lemma mismatched_iff:
  "mismatchedEntry (key, c)
   \<longleftrightarrow> extractValue c = Inl (MalformedContentError ''Only snake format is supported'')"
  by (cases c)
     (simp_all add: mismatchedEntry_def leadingTag_def extractValue_eq extractValue_DictCell)

lemma extractValue_error:
  "extractValue c = Inl e \<Longrightarrow>
   e = LibraryError \<or> e = MalformedContentError ''Only snake format is supported''"
  by (cases c) (auto simp add: extractValue_eq extractValue_DictCell split: if_splits)

lemma readable_iff:
  "readableEntry (key, c) \<longleftrightarrow> (\<exists>buf. extractValue c = Inr buf)"
  by (cases c)
     (auto simp add: readableEntry_def wholeBytes_def mismatchedEntry_def leadingTag_def
        extractValue_eq extractValue_DictCell)

lemma unreadable_error:
  assumes "\<not> readableEntry (key, c)"
  shows "extractValue c =
           Inl (if mismatchedEntry (key, c)
                then MalformedContentError ''Only snake format is supported''
                else LibraryError)"
proof (cases "extractValue c")
  case (Inl e)
  then show ?thesis
    using extractValue_error [of c e] mismatched_iff [of key c] by auto
next
  case (Inr buf)
  with assms show ?thesis by (simp add: readable_iff)
qed

text \<open>
  The extractor runs over the entries in key order: all of them are read, or the first
  one that cannot be read gives the error.
\<close>

lemma extractAll_first:
  "extractAll extractValue entries =
     (case firstUnreadable entries of
        None \<Rightarrow> Inr (map (\<lambda>(key, c). (key, payload c)) entries)
      | Some entry \<Rightarrow>
          Inl (if mismatchedEntry entry
               then MalformedContentError ''Only snake format is supported''
               else LibraryError))"
proof (induction entries)
  case Nil
  then show ?case by (simp add: firstUnreadable_def)
next
  case (Cons entry entries)
  obtain key c where entry: "entry = (key, c)" by (cases entry)
  show ?case
  proof (cases "readableEntry (key, c)")
    case True
    then obtain buf where buf: "extractValue c = Inr buf" by (auto simp add: readable_iff)
    then have "payload c = buf" by (simp add: payload_def)
    with True buf Cons.IH show ?thesis
      by (simp add: entry firstUnreadable_def split: option.split)
  next
    case False
    then show ?thesis
      using unreadable_error [OF False] by (simp add: entry firstUnreadable_def)
  qed
qed

lemma mismatch_unreadable:
  "list_ex mismatchedEntry entries \<Longrightarrow> firstUnreadable entries \<noteq> None"
  by (auto simp add: firstUnreadable_def find_None_iff list_ex_iff readableEntry_def)

text \<open>What \<open>parseOnChainData\<close> does once the leading tag has been read.\<close>

lemma parse_short_cell:
  "leadingTag c = None \<Longrightarrow> parseOnChainData sha c = Inl LibraryError"
  by (cases c)
     (simp_all add: leadingTag_def parseOnChainData_def beginParse_def readUint_def
        split: if_splits)

lemma parse_wrong_marker:
  "leadingTag c = Some t \<Longrightarrow> t \<noteq> ONCHAIN_CONTENT_PREFIX \<Longrightarrow>
   parseOnChainData sha c = Inl (MalformedContentError ''Expected onchain content marker'')"
  by (cases c)
     (auto simp add: leadingTag_def parseOnChainData_def beginParse_def readUint_def
        split: if_splits)

lemma parse_right_marker:
  assumes "leadingTag c = Some ONCHAIN_CONTENT_PREFIX"
  shows "parseOnChainData sha c =
           (case c of
              Cell bits (DictCell entries # refs) \<Rightarrow>
                bindE (extractAll extractValue entries)
                  (\<lambda>dict. Inr (foldl (\<lambda>res ke. collectKey sha dict ke res) []
                                 jettonOnChainMetadataSpec))
            | _ \<Rightarrow> Inl LibraryError)"
proof (cases c)
  case (DictCell entries)
  with assms show ?thesis by (simp add: leadingTag_def)
next
  case (Cell bits refs)
  with assms have len: "\<not> length bits < 8"
    and tag: "nat_of_bits (take 8 bits) = ONCHAIN_CONTENT_PREFIX"
    by (simp_all add: leadingTag_def split: if_splits)
  have "parseOnChainData sha c =
      bindE (readDict 256 extractValue (drop 8 bits, refs))
        (\<lambda>dict. Inr (foldl (\<lambda>res ke. collectKey sha dict ke res) []
                       jettonOnChainMetadataSpec))"
    using len tag by (simp add: Cell parseOnChainData_def beginParse_def readUint_def)
  then show ?thesis
    by (simp add: Cell readDict_def split: list.split cell.split)
qed

lemma parse_right_marker_error:
  assumes "leadingTag c = Some ONCHAIN_CONTENT_PREFIX"
    and "parseOnChainData sha c = Inl e" and "e \<noteq> LibraryError"
  shows "\<exists>entry. firstUnreadable (dictEntries c) = Some entry \<and> mismatchedEntry entry
           \<and> e = MalformedContentError ''Only snake format is supported''"
proof -
  from assms(2, 3) parse_right_marker [OF assms(1), of sha]
  obtain bits entries refs where c: "c = Cell bits (DictCell entries # refs)"
    by (auto split: cell.splits list.splits)
  then have entries: "dictEntries c = entries" by (simp add: dictEntries_def)
  from assms(2) parse_right_marker [OF assms(1), of sha] c
  have "extractAll extractValue entries = Inl e"
    by (cases "extractAll extractValue entries") simp_all
  with assms(3) show ?thesis
    by (auto simp add: entries extractAll_first split: option.splits if_splits)
qed

lemma parse_first_unreadable:
  assumes "leadingTag c = Some ONCHAIN_CONTENT_PREFIX"
    and "firstUnreadable (dictEntries c) = Some entry"
  shows "parseOnChainData sha c =
           Inl (if mismatchedEntry entry
                then MalformedContentError ''Only snake format is supported''
                else LibraryError)"
proof -
  from assms(2) have "dictEntries c \<noteq> []" by (auto simp add: firstUnreadable_def)
  then obtain bits entries refs where c: "c = Cell bits (DictCell entries # refs)"
    by (auto simp add: dictEntries_def split: cell.splits list.splits)
  then have "dictEntries c = entries" by (simp add: dictEntries_def)
  with assms(2) have "extractAll extractValue entries =
           Inl (if mismatchedEntry entry
                then MalformedContentError ''Only snake format is supported''
                else LibraryError)"
    by (simp add: extractAll_first)
  then show ?thesis using parse_right_marker [OF assms(1), of sha] c by simp
qed

text \<open>
  C3 (as amended). For a content cell whose first reference, when it has one, is a
  dictionary: \<open>parseOnChainData\<close> fails with \<open>Expected onchain content marker\<close>
  exactly when the content cell has a leading 8-bit tag that is not the on-chain marker.
  It fails with \<open>Only snake format is supported\<close> exactly when the marker is right and,
  in the dictionary under the first reference, the first entry in key order that cannot
  be read is one whose first byte is not the snake tag. Whenever the marker is right and
  some entry starts with a byte that is not the snake tag, the parse fails: with that
  error, or with the library's error when an entry before it cannot be read. No other
  malformed-content error is raised.
\<close>

theorem parseOnChainData_tag_errors:
  assumes "contentShaped c"
  shows
  "(parseOnChainData sha c = Inl (MalformedContentError ''Expected onchain content marker'')
      \<longleftrightarrow> (\<exists>t. leadingTag c = Some t \<and> t \<noteq> ONCHAIN_CONTENT_PREFIX))
   \<and> (parseOnChainData sha c = Inl (MalformedContentError ''Only snake format is supported'')
      \<longleftrightarrow> leadingTag c = Some ONCHAIN_CONTENT_PREFIX
          \<and> (\<exists>entry. firstUnreadable (dictEntries c) = Some entry \<and> mismatchedEntry entry))
   \<and> (leadingTag c = Some ONCHAIN_CONTENT_PREFIX \<and> list_ex mismatchedEntry (dictEntries c)
      \<longrightarrow> parseOnChainData sha c
            = Inl (MalformedContentError ''Only snake format is supported'')
          \<or> parseOnChainData sha c = Inl LibraryError)
   \<and> (parseOnChainData sha c = Inl (MalformedContentError msg)
      \<longrightarrow> msg = ''Expected onchain content marker''
          \<or> msg = ''Only snake format is supported'')"
proof (intro conjI impI iffI; (elim conjE exE)?)
  assume err: "parseOnChainData sha c
                = Inl (MalformedContentError ''Expected onchain content marker'')"
  show "\<exists>t. leadingTag c = Some t \<and> t \<noteq> ONCHAIN_CONTENT_PREFIX"
  proof (cases "leadingTag c")
    case None
    with err show ?thesis by (simp add: parse_short_cell)
  next
    case (Some t)
    show ?thesis
    proof (cases "t = ONCHAIN_CONTENT_PREFIX")
      case True
      with Some have "leadingTag c = Some ONCHAIN_CONTENT_PREFIX" by simp
      from parse_right_marker_error [OF this err] show ?thesis by simp
    next
      case False
      with Some show ?thesis by simp
    qed
  qed
next
  fix t
  assume "leadingTag c = Some t" and "t \<noteq> ONCHAIN_CONTENT_PREFIX"
  then show "parseOnChainData sha c
        = Inl (MalformedContentError ''Expected onchain content marker'')"
    by (rule parse_wrong_marker)
next
  assume err: "parseOnChainData sha c
                = Inl (MalformedContentError ''Only snake format is supported'')"
  show "leadingTag c = Some ONCHAIN_CONTENT_PREFIX"
  proof (cases "leadingTag c")
    case None
    with err show ?thesis by (simp add: parse_short_cell)
  next
    case (Some t)
    with err parse_wrong_marker [of c t sha] show ?thesis by (cases "t = ONCHAIN_CONTENT_PREFIX") simp_all
  qed
  from parse_right_marker_error [OF this err]
  show "\<exists>entry. firstUnreadable (dictEntries c) = Some entry \<and> mismatchedEntry entry"
    by auto
next
  fix entry
  assume "leadingTag c = Some ONCHAIN_CONTENT_PREFIX"
    and "firstUnreadable (dictEntries c) = Some entry" and "mismatchedEntry entry"
  then show "parseOnChainData sha c
        = Inl (MalformedContentError ''Only snake format is supported'')"
    by (simp add: parse_first_unreadable)
next
  assume tag: "leadingTag c = Some ONCHAIN_CONTENT_PREFIX"
    and bad: "list_ex mismatchedEntry (dictEntries c)"
  from mismatch_unreadable [OF bad] obtain entry
    where "firstUnreadable (dictEntries c) = Some entry" by auto
  from parse_first_unreadable [OF tag this, of sha]
  show "parseOnChainData sha c
            = Inl (MalformedContentError ''Only snake format is supported'')
          \<or> parseOnChainData sha c = Inl LibraryError"
    by (cases "mismatchedEntry entry") simp_all
next
  assume err: "parseOnChainData sha c = Inl (MalformedContentError msg)"
  show "msg = ''Expected onchain content marker''
          \<or> msg = ''Only snake format is supported''"
  proof (cases "leadingTag c")
    case None
    with err show ?thesis by (simp add: parse_short_cell)
  next
    case (Some t)
    show ?thesis
    proof (cases "t = ONCHAIN_CONTENT_PREFIX")
      case True
      with Some have "leadingTag c = Some ONCHAIN_CONTENT_PREFIX" by simp
      from parse_right_marker_error [OF this err] show ?thesis by auto
    next
      case False
      with Some err parse_wrong_marker [of c t sha] show ?thesis by simp
    qed
  qed
qed

lemma wrongMarkerCell_tag: "leadingTag wrongMarkerCell = Some 1"
  using nat_of_uint_bits [of 8 1] by (simp add: leadingTag_def wrongMarkerCell_def)

lemma wrongSnakeCell_tag: "leadingTag wrongSnakeCell = Some ONCHAIN_CONTENT_PREFIX"
  using nat_of_uint_bits [of 8 ONCHAIN_CONTENT_PREFIX]
  by (simp add: leadingTag_def wrongSnakeCell_def ONCHAIN_CONTENT_PREFIX_def)

lemma wrongSnakeCell_entries:
  "dictEntries wrongSnakeCell = [(4, Cell (uint_bits 8 1) [])]"
  by (simp add: dictEntries_def wrongSnakeCell_def)

lemma byte_1_mismatched: "mismatchedEntry (key, Cell (uint_bits 8 1) [])"
  using nat_of_uint_bits [of 8 1]
  by (simp add: mismatchedEntry_def leadingTag_def SNAKE_PREFIX_def)

lemma wrongSnakeCell_mismatch: "list_ex mismatchedEntry (dictEntries wrongSnakeCell)"
  using byte_1_mismatched [of 4] by (simp add: wrongSnakeCell_entries)

lemma wrongMarkerCell_shaped: "contentShaped wrongMarkerCell"
  by (simp add: contentShaped_def wrongMarkerCell_def)

lemma wrongSnakeCell_shaped: "contentShaped wrongSnakeCell"
  by (simp add: contentShaped_def wrongSnakeCell_def plainCell_def)

lemma wrongSnakeCell_first:
  "firstUnreadable (dictEntries wrongSnakeCell) = Some (4, Cell (uint_bits 8 1) [])"
  using byte_1_mismatched [of 4]
  by (simp add: wrongSnakeCell_entries firstUnreadable_def readableEntry_def)

text \<open>
  The parts at a cell whose leading tag is 1 and at a cell with the right marker whose
  entry starts with the byte 1.
\<close>

theorem parseOnChainData_tag_errors_witness:
  "contentShaped wrongMarkerCell \<and> contentShaped wrongSnakeCell
   \<and> leadingTag wrongMarkerCell = Some 1 \<and> 1 \<noteq> ONCHAIN_CONTENT_PREFIX
   \<and> parseOnChainData lengthDigest wrongMarkerCell
       = Inl (MalformedContentError ''Expected onchain content marker'')
   \<and> leadingTag wrongSnakeCell = Some ONCHAIN_CONTENT_PREFIX
   \<and> firstUnreadable (dictEntries wrongSnakeCell) = Some (4, Cell (uint_bits 8 1) [])
   \<and> mismatchedEntry (4, Cell (uint_bits 8 1) [])
   \<and> list_ex mismatchedEntry (dictEntries wrongSnakeCell)
   \<and> parseOnChainData lengthDigest wrongSnakeCell
       = Inl (MalformedContentError ''Only snake format is supported'')"
proof -
  have ne: "1 \<noteq> ONCHAIN_CONTENT_PREFIX" by (simp add: ONCHAIN_CONTENT_PREFIX_def)
  note marker = parseOnChainData_tag_errors
    [OF wrongMarkerCell_shaped, where sha = lengthDigest
       and msg = "''Expected onchain content marker''"]
  note snake = parseOnChainData_tag_errors
    [OF wrongSnakeCell_shaped, where sha = lengthDigest
       and msg = "''Only snake format is supported''"]
  have A: "parseOnChainData lengthDigest wrongMarkerCell
       = Inl (MalformedContentError ''Expected onchain content marker'')"
    using marker wrongMarkerCell_tag ne by blast
  have B: "parseOnChainData lengthDigest wrongSnakeCell
       = Inl (MalformedContentError ''Only snake format is supported'')"
    using snake wrongSnakeCell_tag wrongSnakeCell_first byte_1_mismatched [of 4] by blast
  from wrongMarkerCell_shaped wrongSnakeCell_shaped wrongMarkerCell_tag ne A
    wrongSnakeCell_tag wrongSnakeCell_first
    byte_1_mismatched [of 4] wrongSnakeCell_mismatch B
  show ?thesis by blast
qed

lemma brokenEntryCell_tag: "leadingTag brokenEntryCell = Some ONCHAIN_CONTENT_PREFIX"
  using nat_of_uint_bits [of 8 ONCHAIN_CONTENT_PREFIX]
  by (simp add: leadingTag_def brokenEntryCell_def ONCHAIN_CONTENT_PREFIX_def)

lemma brokenEntryCell_entries:
  "dictEntries brokenEntryCell =
     [(4, Cell (uint_bits 8 SNAKE_PREFIX @ [True, False, True]) []),
      (6, Cell (uint_bits 8 1) [])]"
  by (simp add: dictEntries_def brokenEntryCell_def)

lemma brokenEntryCell_first:
  "firstUnreadable (dictEntries brokenEntryCell)
   = Some (4, Cell (uint_bits 8 SNAKE_PREFIX @ [True, False, True]) [])"
  by (simp add: brokenEntryCell_entries firstUnreadable_def readableEntry_def wholeBytes_def)

lemma brokenEntry_matches:
  "\<not> mismatchedEntry (4, Cell (uint_bits 8 SNAKE_PREFIX @ [True, False, True]) [])"
  using nat_of_uint_bits [of 8 SNAKE_PREFIX]
  by (simp add: mismatchedEntry_def leadingTag_def SNAKE_PREFIX_def)

text \<open>
  C3 as stated fails. In this cell the marker is right and the second entry starts with
  the byte 1, not the snake tag; the first entry has 11 bits, so that reading its
  remaining bytes throws, and the parse ends with the library's error, not with a
  malformed-content error.
\<close>

theorem mismatch_behind_broken_entry_counterexample:
  "contentShaped brokenEntryCell
   \<and> leadingTag brokenEntryCell = Some ONCHAIN_CONTENT_PREFIX
   \<and> mismatchedEntry (6, Cell (uint_bits 8 1) [])
   \<and> (6, Cell (uint_bits 8 1) []) \<in> set (dictEntries brokenEntryCell)
   \<and> parseOnChainData lengthDigest brokenEntryCell = Inl LibraryError"
proof -
  have "parseOnChainData lengthDigest brokenEntryCell = Inl LibraryError"
    using parse_first_unreadable [OF brokenEntryCell_tag brokenEntryCell_first, of lengthDigest]
      brokenEntry_matches
    by simp
  moreover have "contentShaped brokenEntryCell"
    by (simp add: contentShaped_def brokenEntryCell_def plainCell_def)
  ultimately show ?thesis
    using brokenEntryCell_tag byte_1_mismatched [of 6]
    by (simp add: brokenEntryCell_entries)
qed

section \<open>The connection store: what a write changes\<close>

text \<open>
  C10. A write through \<open>connectWalletSelector\<close> replaces the address and the wallet by
  those of the new value and leaves \<open>adapterId\<close>, \<open>isConnecting\<close> and \<open>isRestoring\<close>
  as they were, for every prior state and every new value.
\<close>

theorem connectWalletSelector_set_frame:
  "adapterId (connectWalletSelector_set state nv) = adapterId state
   \<and> isConnecting (connectWalletSelector_set state nv) = isConnecting state
   \<and> isRestoring (connectWalletSelector_set state nv) = isRestoring state
   \<and> address (connectWalletSelector_set state nv) = new_address nv
   \<and> wallet (connectWalletSelector_set state nv) = new_wallet nv"
  by (simp add: connectWalletSelector_set_def)

end
